theory Spec2Isabelle
  imports Main "HOL-Library.Product_Lexorder" "HOL-Library.Sublist" "HOL-Library.Multiset"
begin

section \<open>Survey automation script (screenshot.py): data model\<close>

text \<open>
  The script drives a browser, stitches scrolling screenshots, asks a hosted completion
  API for an answer to every question of a survey page and injects the answer into the
  page. Everything outside the script (browser, file system, HTTP API, clock) is a
  world of type \<open>'w\<close> that is reached only through the operations of an \<open>env\<close>
  record; the script itself is a function from a world to a result, a new world and the
  list of operations it performed.
\<close>

subsection \<open>Python values used by the script\<close>

datatype error =
    ValueError
  | IndexError
  | TimeoutException
  | NoSuchElementException
  | WebDriverException
  | OSError
  | RequestException

text \<open>A WebElement is compared by its element id (\<open>element in list\<close> uses \<open>__eq__\<close>).\<close>

type_synonym elem = nat

text \<open>The pair \<open>(By.X, value)\<close> handed to \<open>find_element(s)\<close>.\<close>

datatype locator = ByClassName string | ByTagName string | ById string

text \<open>
  An entry of a \<open>content\<close> list is \<open>{"type": "image_url", "image_url": {"url": u}}\<close>
  or \<open>{"type": "text", "text": t}\<close>; the content of a message is such a list or a
  plain string; a message is \<open>{"role": r, "content": c}\<close>.
\<close>

datatype part = ImageUrl string | TextPart string

datatype body = Parts "part list" | Plain string

datatype message = Message (role: string) (content: body)

subsection \<open>\<open>str(n)\<close> and \<open>int(s)\<close>\<close>

definition digit_char :: "nat \<Rightarrow> char" where
  "digit_char d = char_of (48 + d)"

fun str_nat :: "nat \<Rightarrow> string" where
  "str_nat n = (if n < 10 then [digit_char n] else str_nat (n div 10) @ [digit_char (n mod 10)])"

declare str_nat.simps [simp del]

definition str_int :: "int \<Rightarrow> string" where
  "str_int i = (if i < 0 then CHR ''-'' # str_nat (nat (- i)) else str_nat (nat i))"

text \<open>
  \<open>int(s)\<close> on a \<open>str\<close>, base 10. A \<open>char\<close> stands for a code point below 256.
  Surrounding whitespace is stripped, one sign is allowed, then decimal digits in which
  single underscores may separate digits. Anything else raises \<open>ValueError\<close> (here
  \<open>None\<close>), as does a literal of more than \<open>int_max_str_digits\<close> digits (CPython's
  default limit). The whitespace that \<open>int\<close> strips is that of C's \<open>isspace\<close> (tab to
  carriage return, and the space) and, since CPython first turns every other Unicode
  space into a space, the code points 0x85 and 0xA0; the separators 0x1C to 0x1F are
  below 127, stay as they are and are not stripped. The only decimal digits below 256
  are \<open>0\<close> to \<open>9\<close>.
\<close>

definition is_space :: "char \<Rightarrow> bool" where
  "is_space c = ((of_char c :: nat) \<in> {9, 10, 11, 12, 13, 32, 133, 160})"

definition is_digit :: "char \<Rightarrow> bool" where
  "is_digit c = (48 \<le> (of_char c :: nat) \<and> (of_char c :: nat) \<le> 57)"

definition digit_val :: "char \<Rightarrow> int" where
  "digit_val c = int (of_char c) - 48"

definition strip :: "string \<Rightarrow> string" where
  "strip s = rev (dropWhile is_space (rev (dropWhile is_space s)))"

fun digits_ok :: "string \<Rightarrow> bool" where
  "digits_ok [] = False"
| "digits_ok [c] = is_digit c"
| "digits_ok (c # d # cs) =
     (is_digit c \<and> (if d = CHR ''_'' then digits_ok cs else digits_ok (d # cs)))"

definition int_max_str_digits :: nat where
  "int_max_str_digits = 4300"

definition digits_value :: "string \<Rightarrow> int" where
  "digits_value s = foldl (\<lambda>a c. 10 * a + digit_val c) 0 (filter is_digit s)"

definition unsigned_int :: "string \<Rightarrow> int option" where
  "unsigned_int s =
     (if digits_ok s \<and> length (filter is_digit s) \<le> int_max_str_digits
      then Some (digits_value s) else None)"

definition py_int :: "string \<Rightarrow> int option" where
  "py_int s =
     (case strip s of
        [] \<Rightarrow> None
      | c # cs \<Rightarrow>
          if c = CHR ''-'' then map_option uminus (unsigned_int cs)
          else if c = CHR ''+'' then unsigned_int cs
          else unsigned_int (c # cs))"

text \<open>\<open>xs[i]\<close>: a negative index counts from the end, an index out of range raises.\<close>

definition py_index :: "'a list \<Rightarrow> int \<Rightarrow> error + 'a" where
  "py_index xs i =
     (if 0 \<le> i \<and> i < int (length xs) then Inr (xs ! nat i)
      else if i < 0 \<and> - int (length xs) \<le> i then Inr (xs ! nat (int (length xs) + i))
      else Inl IndexError)"

subsection \<open>Images (PIL)\<close>

type_synonym colour = "nat \<times> nat \<times> nat"

record image =
  width :: nat
  height :: nat
  pixel :: "nat \<Rightarrow> nat \<Rightarrow> colour"

text \<open>\<open>Image.new('RGB', (w, h))\<close>: a black canvas.\<close>

definition image_new :: "nat \<Rightarrow> nat \<Rightarrow> image" where
  "image_new w h = \<lparr>width = w, height = h, pixel = (\<lambda>x y. (0, 0, 0))\<rparr>"

text \<open>
  \<open>canvas.paste(img, (x0, y0))\<close>: the pixels of \<open>img\<close> replace those of the canvas in the
  box whose upper left corner is \<open>(x0, y0)\<close>, clipped to the canvas.
\<close>

definition paste :: "image \<Rightarrow> image \<Rightarrow> nat \<times> nat \<Rightarrow> image" where
  "paste canvas img pos =
     canvas\<lparr>pixel := (\<lambda>x y.
        if fst pos \<le> x \<and> x < fst pos + width img \<and> snd pos \<le> y \<and> y < snd pos + height img
           \<and> x < width canvas \<and> y < height canvas
        then pixel img (x - fst pos) (y - snd pos)
        else pixel canvas x y)\<rparr>"

text \<open>
  \<open>widths, heights = zip(*(i.size for i in imgs))\<close>: with no image \<open>zip\<close> yields
  nothing and the unpacking into two names raises \<open>ValueError\<close>.
\<close>

definition unzip_sizes :: "(nat \<times> nat) list \<Rightarrow> error + (nat list \<times> nat list)" where
  "unzip_sizes sizes = (if sizes = [] then Inl ValueError else Inr (map fst sizes, map snd sizes))"

text \<open>The paste loop: the state is \<open>(stitched_image, y_offset)\<close>.\<close>

primrec paste_loop :: "image list \<Rightarrow> image \<times> nat \<Rightarrow> image \<times> nat" where
  "paste_loop [] s = s"
| "paste_loop (img # imgs) s =
     paste_loop imgs (paste (fst s) img (0, snd s), snd s + height img)"

text \<open>The computation of \<open>stitch_images_vertically\<close> between loading and saving.\<close>

definition stitch :: "image list \<Rightarrow> error + image" where
  "stitch imgs =
     (case unzip_sizes (map (\<lambda>i. (width i, height i)) imgs) of
        Inl e \<Rightarrow> Inl e
      | Inr (widths, heights) \<Rightarrow>
          let total_height = sum_list heights;
              max_width = Max (set widths);
              stitched_image = image_new max_width total_height
          in Inr (fst (paste_loop imgs (stitched_image, 0))))"


section \<open>Effects\<close>

subsection \<open>Operations, events and the world\<close>

text \<open>
  Every call that leaves the script is an \<open>action\<close>. An \<open>event\<close> is an action with
  what came back: the returned value, or the exception it raised.
  \<open>Call_stitch_images_vertically\<close> is not an operation of the world: it marks the
  entry of \<open>stitch_images_vertically\<close> with the arguments of the call.
\<close>

datatype val =
    VUnit
  | VBool bool
  | VInt int
  | VStr string
  | VElem elem
  | VElems "elem list"
  | VPos "int \<times> int"
  | VSize "nat \<times> nat"

datatype action =
    SaveScreenshot string
  | ExecuteScript string
  | Sleep nat
  | Call_stitch_images_vertically "string list" string
  | ImageOpen string
  | ImageSave string
  | FindElements locator
  | ReadBase64 string
  | GetLocation elem
  | GetAttribute elem string
  | PostChatCompletions "message list"
  | CreateChatCompletion "message list"
  | FindChildren elem locator
  | FindChild elem locator
  | Click elem
  | SendKeys elem string
  | SelectInit elem
  | SelectByValue elem string
  | JsonDump string "message list"
  | WaitUntilFind nat locator
  | LogError string

datatype outcome = Ok val | Failed error

type_synonym event = "action \<times> outcome"

text \<open>
  The operations of the libraries the script calls. Each takes the world and gives the
  value it returns or the exception it raises, and the world afterwards.
  \<^item> \<open>save_screenshot\<close>: \<open>driver.save_screenshot(filename)\<close>, whose boolean the script drops;
  \<^item> \<open>scroll_by_inner_height\<close>: \<open>driver.execute_script("window.scrollBy(0, window.innerHeight);")\<close>;
  \<^item> \<open>page_y_offset\<close>: \<open>driver.execute_script("return window.pageYOffset")\<close>;
  \<^item> \<open>sleep\<close>: \<open>time.sleep\<close>;
  \<^item> \<open>image_open\<close>, \<open>image_save\<close>: \<open>Image.open\<close>, \<open>Image.save\<close>;
  \<^item> \<open>find_elements\<close>: \<open>driver.find_elements\<close>; \<open>find_child_elements\<close> and
    \<open>find_child_element\<close>: the same on an element;
  \<^item> \<open>read_base64\<close>: reading a file and encoding its bytes in base64;
  \<^item> \<open>location\<close>: \<open>element.location\<close>, as \<open>(x, y)\<close>;
  \<^item> \<open>get_attribute\<close>, \<open>click\<close>, \<open>send_keys\<close>: the methods of a WebElement;
  \<^item> \<open>post_chat_completions\<close>: the POST of \<open>answer_survey_choice\<close> and
    \<open>answer_survey_other\<close>, down to \<open>["choices"][0]["message"]["content"]\<close>;
  \<^item> \<open>create_chat_completion\<close>: \<open>client.chat.completions.create\<close> of \<open>summarize_answer\<close>,
    down to \<open>choices[0].message.content\<close>;
  \<^item> \<open>select_init\<close>, \<open>select_by_value\<close>: \<open>Select(element)\<close> and its method;
  \<^item> \<open>json_dump\<close>: opening a file for writing and \<open>json.dump\<close> into it;
  \<^item> \<open>wait_until_find\<close>: \<open>WebDriverWait(driver, t).until(lambda d: d.find_element(...))\<close>.
\<close>

record 'w env =
  save_screenshot :: "string \<Rightarrow> 'w \<Rightarrow> (error + bool) \<times> 'w"
  scroll_by_inner_height :: "'w \<Rightarrow> (error + unit) \<times> 'w"
  page_y_offset :: "'w \<Rightarrow> (error + int) \<times> 'w"
  sleep :: "nat \<Rightarrow> 'w \<Rightarrow> (error + unit) \<times> 'w"
  image_open :: "string \<Rightarrow> 'w \<Rightarrow> (error + image) \<times> 'w"
  image_save :: "string \<Rightarrow> image \<Rightarrow> 'w \<Rightarrow> (error + unit) \<times> 'w"
  find_elements :: "locator \<Rightarrow> 'w \<Rightarrow> (error + elem list) \<times> 'w"
  read_base64 :: "string \<Rightarrow> 'w \<Rightarrow> (error + string) \<times> 'w"
  location :: "elem \<Rightarrow> 'w \<Rightarrow> (error + int \<times> int) \<times> 'w"
  get_attribute :: "elem \<Rightarrow> string \<Rightarrow> 'w \<Rightarrow> (error + string) \<times> 'w"
  post_chat_completions :: "message list \<Rightarrow> 'w \<Rightarrow> (error + string) \<times> 'w"
  create_chat_completion :: "message list \<Rightarrow> 'w \<Rightarrow> (error + string) \<times> 'w"
  find_child_elements :: "elem \<Rightarrow> locator \<Rightarrow> 'w \<Rightarrow> (error + elem list) \<times> 'w"
  find_child_element :: "elem \<Rightarrow> locator \<Rightarrow> 'w \<Rightarrow> (error + elem) \<times> 'w"
  click :: "elem \<Rightarrow> 'w \<Rightarrow> (error + unit) \<times> 'w"
  send_keys :: "elem \<Rightarrow> string \<Rightarrow> 'w \<Rightarrow> (error + unit) \<times> 'w"
  select_init :: "elem \<Rightarrow> 'w \<Rightarrow> (error + unit) \<times> 'w"
  select_by_value :: "elem \<Rightarrow> string \<Rightarrow> 'w \<Rightarrow> (error + unit) \<times> 'w"
  json_dump :: "string \<Rightarrow> message list \<Rightarrow> 'w \<Rightarrow> (error + unit) \<times> 'w"
  wait_until_find :: "nat \<Rightarrow> locator \<Rightarrow> 'w \<Rightarrow> (error + elem) \<times> 'w"

subsection \<open>Programs\<close>

text \<open>
  A program returns a value, raises, or runs out of fuel (the two \<open>while True\<close> loops
  of the script are bounded by a fuel argument), and yields the world it leaves behind
  and the events it caused, oldest first.
\<close>

datatype 'a result = Return 'a | Raise error | OutOfFuel

type_synonym ('a, 'w, 'e) prog = "'w \<Rightarrow> 'a result \<times> 'w \<times> 'e list"

definition ret :: "'a \<Rightarrow> ('a, 'w, 'e) prog" where
  "ret x = (\<lambda>w. (Return x, w, []))"

definition raise :: "error \<Rightarrow> ('a, 'w, 'e) prog" where
  "raise e = (\<lambda>w. (Raise e, w, []))"

definition out_of_fuel :: "('a, 'w, 'e) prog" where
  "out_of_fuel = (\<lambda>w. (OutOfFuel, w, []))"

text \<open>Sequencing: an exception (or the end of the fuel) skips the rest.\<close>

definition bindP :: "('a, 'w, 'e) prog \<Rightarrow> ('a \<Rightarrow> ('b, 'w, 'e) prog) \<Rightarrow> ('b, 'w, 'e) prog" where
  "bindP m f = (\<lambda>w.
     case m w of
       (Return x, w1, t1) \<Rightarrow> (case f x w1 of (r, w2, t2) \<Rightarrow> (r, w2, t1 @ t2))
     | (Raise e, w1, t1) \<Rightarrow> (Raise e, w1, t1)
     | (OutOfFuel, w1, t1) \<Rightarrow> (OutOfFuel, w1, t1))"

text \<open>One operation of the world, recorded with what it returned.\<close>

definition call :: "action \<Rightarrow> ('a \<Rightarrow> val) \<Rightarrow> ('w \<Rightarrow> (error + 'a) \<times> 'w) \<Rightarrow> ('a, 'w, event) prog" where
  "call a to_val f = (\<lambda>w.
     case f w of
       (Inl e, w1) \<Rightarrow> (Raise e, w1, [(a, Failed e)])
     | (Inr x, w1) \<Rightarrow> (Return x, w1, [(a, Ok (to_val x))]))"

text \<open>An event that is only recorded (log output, call marker).\<close>

definition emit :: "action \<Rightarrow> (unit, 'w, event) prog" where
  "emit a = (\<lambda>w. (Return (), w, [(a, Ok VUnit)]))"

text \<open>The events of a part of the script, labelled with where they come from.\<close>

definition at :: "'t \<Rightarrow> ('a, 'w, 'e) prog \<Rightarrow> ('a, 'w, 't \<times> 'e) prog" where
  "at l m = (\<lambda>w. case m w of (r, w1, t) \<Rightarrow> (r, w1, map (Pair l) t))"

text \<open>A list comprehension (or loop) whose body is a program.\<close>

primrec for_each :: "('a \<Rightarrow> ('b, 'w, 'e) prog) \<Rightarrow> 'a list \<Rightarrow> ('b list, 'w, 'e) prog" where
  "for_each f [] = ret []"
| "for_each f (x # xs) = bindP (f x) (\<lambda>y. bindP (for_each f xs) (\<lambda>ys. ret (y # ys)))"

definition unit_val :: "unit \<Rightarrow> val" where
  "unit_val u = VUnit"

section \<open>The script\<close>

subsection \<open>\<open>take_screenshots_scroll\<close>\<close>

definition scroll_script :: string where
  "scroll_script = ''window.scrollBy(0, window.innerHeight);''"

definition offset_script :: string where
  "offset_script = ''return window.pageYOffset''"

text \<open>\<open>f'{filepath}_{len(screenshots)}.png'\<close>\<close>

definition screenshot_name :: "string \<Rightarrow> nat \<Rightarrow> string" where
  "screenshot_name filepath n = filepath @ ''_'' @ str_nat n @ ''.png''"

text \<open>
  The \<open>while True\<close> loop with its variables \<open>screenshots\<close> and \<open>last_height\<close>; the
  scroll position is a number of pixels, of which only equality is used.
\<close>

primrec take_screenshots_loop ::
  "nat \<Rightarrow> 'w env \<Rightarrow> string \<Rightarrow> string list \<Rightarrow> int \<Rightarrow> (string list, 'w, event) prog" where
  "take_screenshots_loop 0 env filepath screenshots last_height = out_of_fuel"
| "take_screenshots_loop (Suc fuel) env filepath screenshots last_height =
     (let filename = screenshot_name filepath (length screenshots) in
      bindP (call (SaveScreenshot filename) VBool (save_screenshot env filename)) (\<lambda>_.
      let screenshots' = screenshots @ [filename] in
      bindP (call (ExecuteScript scroll_script) unit_val (scroll_by_inner_height env)) (\<lambda>_.
      bindP (call (Sleep 2) unit_val (sleep env 2)) (\<lambda>_.
      bindP (call (ExecuteScript offset_script) VInt (page_y_offset env)) (\<lambda>new_height.
      if new_height = last_height then ret screenshots'
      else take_screenshots_loop fuel env filepath screenshots' new_height)))))"

definition take_screenshots_scroll :: "nat \<Rightarrow> 'w env \<Rightarrow> string \<Rightarrow> (string list, 'w, event) prog" where
  "take_screenshots_scroll fuel env filepath = take_screenshots_loop fuel env filepath [] 0"

subsection \<open>\<open>stitch_images_vertically\<close>\<close>

definition size_val :: "image \<Rightarrow> val" where
  "size_val i = VSize (width i, height i)"

definition stitch_images_vertically :: "'w env \<Rightarrow> string list \<Rightarrow> string \<Rightarrow> (unit, 'w, event) prog" where
  "stitch_images_vertically env images output_filename =
     bindP (emit (Call_stitch_images_vertically images output_filename)) (\<lambda>_.
     bindP (for_each (\<lambda>x. call (ImageOpen x) size_val (image_open env x)) images) (\<lambda>imgs.
     case stitch imgs of
       Inl e \<Rightarrow> raise e
     | Inr stitched_image \<Rightarrow>
         call (ImageSave output_filename) unit_val (image_save env output_filename stitched_image)))"

subsection \<open>\<open>encode_image\<close>, \<open>answer_survey_choice\<close>, \<open>answer_survey_other\<close>, \<open>summarize_answer\<close>\<close>

definition encode_image :: "'w env \<Rightarrow> string \<Rightarrow> (string, 'w, event) prog" where
  "encode_image env image_path = call (ReadBase64 image_path) VStr (read_base64 env image_path)"

text \<open>The API key is read once from the environment and is part of the world.\<close>

definition answer_survey_choice :: "'w env \<Rightarrow> message list \<Rightarrow> (int, 'w, event) prog" where
  "answer_survey_choice env messages =
     bindP (call (PostChatCompletions messages) VStr (post_chat_completions env messages)) (\<lambda>reply.
     case py_int reply of None \<Rightarrow> raise ValueError | Some n \<Rightarrow> ret n)"

definition answer_survey_other :: "'w env \<Rightarrow> message list \<Rightarrow> (string, 'w, event) prog" where
  "answer_survey_other env messages =
     call (PostChatCompletions messages) VStr (post_chat_completions env messages)"

definition summarize_system_prompt :: string where
  "summarize_system_prompt =
     ''You are a helpful assistant that summarizes the answer given to a survey question. ''
     @ replicate 10 CHR '' ''
     @ ''You will be given the html code of the question and the answer given by the respondent. You have to summarize the answer.''"

text \<open>\<open>answer\<close> is the answer as the f-string renders it.\<close>

definition summarize_answer :: "'w env \<Rightarrow> string \<Rightarrow> string \<Rightarrow> (string, 'w, event) prog" where
  "summarize_answer env html_question answer =
     (let msgs = [Message ''system'' (Plain summarize_system_prompt),
                  Message ''user'' (Plain (html_question
                     @ '' \<newline>\<newline> I answered this question with the following answer: '' @ answer))]
      in call (CreateChatCompletion msgs) VStr (create_chat_completion env msgs))"

subsection \<open>\<open>fill_survey\<close>\<close>

text \<open>The respondent's profile, each field as the f-string renders it.\<close>

record profile =
  age :: string
  gender :: string
  Country_origin :: string
  ethnicity :: string
  Country :: string
  student_text :: string
  work_status :: string

text \<open>A backslash at the end of a line joins it to the next, whose indentation stays in the text.\<close>

definition indent :: string where
  "indent = replicate 20 CHR '' ''"

definition system_prompt :: "profile \<Rightarrow> string" where
  "system_prompt p =
     ''You are answering a survey. You will be given html code of the question. '' @ indent
     @ ''You have to answer the question as if you are a '' @ age p @ '' year old '' @ gender p @ '' '' @ indent
     @ ''born in '' @ Country_origin p @ '' with ethnicity '' @ ethnicity p @ '' who lives in '' @ Country p
     @ '', Nordrhein-Westfalen. '' @ indent
     @ student_text p @ '' and your work status is: '' @ work_status p @ ''. So: '' @ indent
     @ ''- Age: '' @ age p @ '' '' @ indent
     @ ''- Gender: '' @ gender p @ '' '' @ indent
     @ ''- Country of origin: '' @ Country_origin p @ '' '' @ indent
     @ ''- German state: Nordrhein-Westfalen '' @ indent
     @ ''- Ethnicity: '' @ ethnicity p @ '' '' @ indent
     @ ''- Country: '' @ Country p @ '' '' @ indent
     @ ''- Student: '' @ student_text p @ '' '' @ indent
     @ ''- Work status: '' @ work_status p @ '' '' @ indent
     @ ''Only return your answer and nothing else.'' @ indent
     @ ''IF it is a multuple choise question, Only return the number of the answer you choose, like '1', '2', '3' or '4', etc.'' @ indent
     @ ''IF it is a text question, return the text you would write as a response.'' @ indent
     @ ''ONLY return the answer.'' @ indent
     @ ''ONLY return the answer on the html question provided.'' @ indent
     @ ''DO NOT answer any other questions that are in the screenshot, ONLY the html question provided.''"

definition system_message :: "profile \<Rightarrow> message" where
  "system_message p = Message ''system'' (Plain (system_prompt p))"

text \<open>
  Where in an iteration of the page loop an event comes from: the screenshots, the
  stitching, the detection of the questions (with the encoding of the stitched image
  and the positions for the sort), the request for question \<open>i\<close> (from the test of
  its type to the summary of its answer), the injection of its answer, the dump of the
  thread, the next button.
\<close>

datatype site = Capture | Stitch | Detect | Ask nat | Inject nat | Dump | Advance

text \<open>The five kinds of question, in the order of the \<open>if\<close>/\<open>elif\<close> chain.\<close>

datatype qkind = CbcTask | SelectTag | QuestionNumeric | ResponseColumn | Textarea

definition kind_locator :: "qkind \<Rightarrow> locator" where
  "kind_locator k =
     (case k of
        CbcTask \<Rightarrow> ByClassName ''cbc_task''
      | SelectTag \<Rightarrow> ByTagName ''select''
      | QuestionNumeric \<Rightarrow> ByClassName ''question.numeric''
      | ResponseColumn \<Rightarrow> ByClassName ''response_column''
      | Textarea \<Rightarrow> ByTagName ''textarea'')"

definition find_kind :: "'w env \<Rightarrow> qkind \<Rightarrow> (elem list, 'w, event) prog" where
  "find_kind env k = call (FindElements (kind_locator k)) VElems (find_elements env (kind_locator k))"

text \<open>\<open>all_questions\<close>: the five searches, concatenated.\<close>

definition find_all_questions :: "'w env \<Rightarrow> (elem list, 'w, event) prog" where
  "find_all_questions env =
     bindP (find_kind env CbcTask) (\<lambda>a.
     bindP (find_kind env SelectTag) (\<lambda>b.
     bindP (find_kind env QuestionNumeric) (\<lambda>c.
     bindP (find_kind env ResponseColumn) (\<lambda>d.
     bindP (find_kind env Textarea) (\<lambda>e.
     ret (a @ b @ c @ d @ e))))))"

definition get_position :: "'w env \<Rightarrow> elem \<Rightarrow> (int \<times> int, 'w, event) prog" where
  "get_position env element =
     bindP (call (GetLocation element) VPos (location env element)) (\<lambda>loc.
     ret (snd loc, fst loc))"

text \<open>\<open>sorted(all_questions, key=get_position)\<close>: the keys are computed first, the sort is stable.\<close>

definition sort_by_keys :: "(int \<times> int) list \<Rightarrow> elem list \<Rightarrow> elem list" where
  "sort_by_keys keys xs = map snd (sort_key fst (zip keys xs))"

definition sorted_by_position :: "'w env \<Rightarrow> elem list \<Rightarrow> (elem list, 'w, event) prog" where
  "sorted_by_position env all_questions =
     bindP (for_each (get_position env) all_questions) (\<lambda>keys.
     ret (sort_by_keys keys all_questions))"

text \<open>
  The \<open>if\<close>/\<open>elif\<close> chain: \<open>element in driver.find_elements(...)\<close> is evaluated for
  the five locators in turn until one holds; with none the element is passed over.
\<close>

definition is_kind :: "'w env \<Rightarrow> qkind \<Rightarrow> elem \<Rightarrow> (bool, 'w, event) prog" where
  "is_kind env k element = bindP (find_kind env k) (\<lambda>found. ret (element \<in> set found))"

definition dispatch :: "'w env \<Rightarrow> elem \<Rightarrow> (qkind option, 'w, event) prog" where
  "dispatch env element =
     bindP (is_kind env CbcTask element) (\<lambda>b1. if b1 then ret (Some CbcTask) else
     bindP (is_kind env SelectTag element) (\<lambda>b2. if b2 then ret (Some SelectTag) else
     bindP (is_kind env QuestionNumeric element) (\<lambda>b3. if b3 then ret (Some QuestionNumeric) else
     bindP (is_kind env ResponseColumn element) (\<lambda>b4. if b4 then ret (Some ResponseColumn) else
     bindP (is_kind env Textarea element) (\<lambda>b5. if b5 then ret (Some Textarea) else
     ret None)))))"

definition question_text :: "string \<Rightarrow> string" where
  "question_text html_question =
     html_question @ '' \<newline>\<newline> Answer this question as if you were the respondent. Only return your answer.''"

text \<open>
  The lines the five branches share, up to the attribute read (\<open>attr\<close>), the function
  that asks the API (\<open>answer_fn\<close>) and the rendering of its answer in the f-string of
  \<open>summarize_answer\<close> (\<open>show\<close>): the question is appended to \<open>content\<close>, a user message
  with \<open>content\<close> is appended to the thread, the API is asked, the message is removed
  (\<open>messages[:-1]\<close>), \<open>content\<close> is reset, the answer is summarised and the summary
  appended as an assistant message. The message holds the list \<open>content\<close> itself, which
  is not changed again before the message is dropped, so values stand for the objects.
\<close>

definition ask ::
  "'w env \<Rightarrow> nat \<Rightarrow> string \<Rightarrow> (message list \<Rightarrow> ('a, 'w, event) prog) \<Rightarrow> ('a \<Rightarrow> string)
     \<Rightarrow> elem \<Rightarrow> part list \<Rightarrow> message list \<Rightarrow> ('a \<times> part list \<times> message list, 'w, site \<times> event) prog" where
  "ask env i attr answer_fn show element content0 messages0 =
     bindP (at (Ask i) (call (GetAttribute element attr) VStr (get_attribute env element attr))) (\<lambda>html_question.
     let content1 = content0 @ [TextPart (question_text html_question)];
         messages1 = messages0 @ [Message ''user'' (Parts content1)]
     in
     bindP (at (Ask i) (answer_fn messages1)) (\<lambda>answer.
     let messages2 = butlast messages1;
         content2 = []
     in
     bindP (at (Ask i) (summarize_answer env html_question (show answer))) (\<lambda>answer_summary.
     let messages3 = messages2 @ [Message ''assistant'' (Plain answer_summary)]
     in ret (answer, content2, messages3))))"

definition pause :: "'w env \<Rightarrow> nat \<Rightarrow> (unit, 'w, event) prog" where
  "pause env n = call (Sleep n) unit_val (sleep env n)"

definition cbc_task_branch ::
  "'w env \<Rightarrow> nat \<Rightarrow> elem \<Rightarrow> part list \<Rightarrow> message list \<Rightarrow> (part list \<times> message list, 'w, site \<times> event) prog" where
  "cbc_task_branch env i element content0 messages0 =
     bindP (ask env i ''innerHTML'' (answer_survey_choice env) str_int element content0 messages0)
       (\<lambda>(answer, content1, messages1).
     bindP (at (Inject i) (call (FindChildren element (ByClassName ''task_select_button'')) VElems
              (find_child_elements env element (ByClassName ''task_select_button'')))) (\<lambda>buttons.
     case py_index buttons (answer - 1) of
       Inl e \<Rightarrow> raise e
     | Inr button \<Rightarrow>
         bindP (at (Inject i) (call (Click button) unit_val (click env button))) (\<lambda>_.
         bindP (at (Inject i) (pause env 1)) (\<lambda>_.
         ret (content1, messages1)))))"

definition select_branch ::
  "'w env \<Rightarrow> nat \<Rightarrow> elem \<Rightarrow> part list \<Rightarrow> message list \<Rightarrow> (part list \<times> message list, 'w, site \<times> event) prog" where
  "select_branch env i element content0 messages0 =
     bindP (ask env i ''outerHTML'' (answer_survey_choice env) str_int element content0 messages0)
       (\<lambda>(answer, content1, messages1).
     bindP (at (Inject i) (call (SelectInit element) unit_val (select_init env element))) (\<lambda>_.
     bindP (at (Inject i) (call (SelectByValue element (str_int answer)) unit_val
              (select_by_value env element (str_int answer)))) (\<lambda>_.
     bindP (at (Inject i) (pause env 1)) (\<lambda>_.
     ret (content1, messages1)))))"

definition numeric_branch ::
  "'w env \<Rightarrow> nat \<Rightarrow> elem \<Rightarrow> part list \<Rightarrow> message list \<Rightarrow> (part list \<times> message list, 'w, site \<times> event) prog" where
  "numeric_branch env i element content0 messages0 =
     bindP (ask env i ''outerHTML'' (answer_survey_other env) id element content0 messages0)
       (\<lambda>(answer, content1, messages1).
     bindP (at (Inject i) (call (FindChild element (ByTagName ''input'')) VElem
              (find_child_element env element (ByTagName ''input'')))) (\<lambda>input.
     bindP (at (Inject i) (call (SendKeys input answer) unit_val (send_keys env input answer))) (\<lambda>_.
     bindP (at (Inject i) (pause env 1)) (\<lambda>_.
     ret (content1, messages1)))))"

definition response_column_branch ::
  "'w env \<Rightarrow> nat \<Rightarrow> elem \<Rightarrow> part list \<Rightarrow> message list \<Rightarrow> (part list \<times> message list, 'w, site \<times> event) prog" where
  "response_column_branch env i element content0 messages0 =
     bindP (ask env i ''innerHTML'' (answer_survey_choice env) str_int element content0 messages0)
       (\<lambda>(answer, content1, messages1).
     bindP (at (Inject i) (call (Click element) unit_val (click env element))) (\<lambda>_.
     bindP (at (Inject i) (pause env 1)) (\<lambda>_.
     ret (content1, messages1))))"

definition textarea_branch ::
  "'w env \<Rightarrow> nat \<Rightarrow> elem \<Rightarrow> part list \<Rightarrow> message list \<Rightarrow> (part list \<times> message list, 'w, site \<times> event) prog" where
  "textarea_branch env i element content0 messages0 =
     bindP (ask env i ''innerHTML'' (answer_survey_other env) id element content0 messages0)
       (\<lambda>(answer, content1, messages1).
     bindP (at (Inject i) (call (SendKeys element answer) unit_val (send_keys env element answer))) (\<lambda>_.
     bindP (at (Inject i) (pause env 1)) (\<lambda>_.
     ret (content1, messages1))))"

definition branch ::
  "'w env \<Rightarrow> qkind \<Rightarrow> nat \<Rightarrow> elem \<Rightarrow> part list \<Rightarrow> message list \<Rightarrow> (part list \<times> message list, 'w, site \<times> event) prog" where
  "branch env k =
     (case k of
        CbcTask \<Rightarrow> cbc_task_branch env
      | SelectTag \<Rightarrow> select_branch env
      | QuestionNumeric \<Rightarrow> numeric_branch env
      | ResponseColumn \<Rightarrow> response_column_branch env
      | Textarea \<Rightarrow> textarea_branch env)"

text \<open>The body of \<open>for i in range(total_questions)\<close>.\<close>

definition question_step ::
  "'w env \<Rightarrow> nat \<Rightarrow> elem \<Rightarrow> part list \<Rightarrow> message list \<Rightarrow> (part list \<times> message list, 'w, site \<times> event) prog" where
  "question_step env i element content0 messages0 =
     bindP (at (Ask i) (dispatch env element)) (\<lambda>k.
     case k of
       None \<Rightarrow> ret (content0, messages0)
     | Some kind \<Rightarrow> branch env kind i element content0 messages0)"

primrec question_loop ::
  "'w env \<Rightarrow> (nat \<times> elem) list \<Rightarrow> part list \<Rightarrow> message list \<Rightarrow> (part list \<times> message list, 'w, site \<times> event) prog" where
  "question_loop env [] content0 messages0 = ret (content0, messages0)"
| "question_loop env (q # qs) content0 messages0 =
     bindP (question_step env (fst q) (snd q) content0 messages0) (\<lambda>(content1, messages1).
     question_loop env qs content1 messages1)"

text \<open>The pairs \<open>(i, sorted_elements[i])\<close> for \<open>i\<close> in \<open>range(total_questions)\<close>.\<close>

definition indexed :: "nat \<Rightarrow> elem list \<Rightarrow> (nat \<times> elem) list" where
  "indexed total_questions sorted_elements = map (\<lambda>i. (i, sorted_elements ! i)) [0..<total_questions]"

text \<open>An iteration of the page loop, up to the dump of the thread.\<close>

definition survey_page ::
  "nat \<Rightarrow> 'w env \<Rightarrow> nat \<Rightarrow> message list \<Rightarrow> (string list \<times> message list, 'w, site \<times> event) prog" where
  "survey_page fuel env page_index messages0 =
     bindP (at Capture (take_screenshots_scroll fuel env ''screenshots/screenshot'')) (\<lambda>screenshots.
     let output_filename = ''stitched/survey_screenshot_'' @ str_nat page_index @ ''.png'' in
     bindP (at Stitch (stitch_images_vertically env screenshots output_filename)) (\<lambda>_.
     bindP (at Detect (find_all_questions env)) (\<lambda>all_questions.
     bindP (at Detect (encode_image env output_filename)) (\<lambda>base64_image.
     let content0 = [ImageUrl (''data:image/jpeg;base64,'' @ base64_image)] in
     bindP (at Detect (sorted_by_position env all_questions)) (\<lambda>sorted_elements.
     let total_questions = length all_questions in
     bindP (if total_questions = 0
            then ret (messages0 @ [Message ''user'' (Parts content0)])
            else bindP (question_loop env (indexed total_questions sorted_elements) content0 messages0)
                   (\<lambda>(content1, messages1). ret messages1)) (\<lambda>messages1.
     bindP (at Dump (call (JsonDump ''messages.json'' messages1) unit_val
              (json_dump env ''messages.json'' messages1))) (\<lambda>_.
     ret (screenshots, messages1))))))))"

text \<open>
  The \<open>try\<close> block: the wait for the next button and the click on it; the bare
  \<open>except\<close> logs and leaves the loop (the result \<open>False\<close>).
\<close>

definition next_button_message :: "nat \<Rightarrow> string" where
  "next_button_message page_index = ''Next button not found on page '' @ str_nat page_index @ ''.''"

definition click_next :: "'w env \<Rightarrow> nat \<Rightarrow> (bool, 'w, event) prog" where
  "click_next env page_index = (\<lambda>w.
     case bindP (call (WaitUntilFind 10 (ById ''next_button'')) VElem
                   (wait_until_find env 10 (ById ''next_button''))) (\<lambda>next_button.
                 call (Click next_button) unit_val (click env next_button)) w of
       (Return _, w1, t) \<Rightarrow> (Return True, w1, t)
     | (Raise e, w1, t) \<Rightarrow> (Return False, w1, t @ [(LogError (next_button_message page_index), Ok VUnit)])
     | (OutOfFuel, w1, t) \<Rightarrow> (OutOfFuel, w1, t))"

text \<open>
  The page loop with its variables \<open>page_index\<close> and \<open>messages\<close>; \<open>fuel\<close> bounds the
  pages, \<open>scroll_fuel\<close> the screenshots of one page.
\<close>

primrec page_loop ::
  "nat \<Rightarrow> nat \<Rightarrow> 'w env \<Rightarrow> nat \<Rightarrow> message list \<Rightarrow> (string list, 'w, nat \<times> site \<times> event) prog" where
  "page_loop 0 scroll_fuel env page_index messages0 = out_of_fuel"
| "page_loop (Suc fuel) scroll_fuel env page_index messages0 =
     bindP (at page_index (survey_page scroll_fuel env page_index messages0)) (\<lambda>(screenshots, messages1).
     bindP (at page_index (at Advance (click_next env page_index))) (\<lambda>continue.
     if \<not> continue then ret screenshots
     else
       bindP (at page_index (at Advance (pause env 1))) (\<lambda>_.
       page_loop fuel scroll_fuel env (page_index + 1) messages1)))"

definition fill_survey :: "nat \<Rightarrow> nat \<Rightarrow> 'w env \<Rightarrow> profile \<Rightarrow> (string list, 'w, nat \<times> site \<times> event) prog" where
  "fill_survey fuel scroll_fuel env p = page_loop fuel scroll_fuel env 0 [system_message p]"

section \<open>Notions used in the statements\<close>

subsection \<open>Scrolling\<close>

text \<open>
  One pass through the body of the loop of \<open>take_screenshots_scroll\<close>, without the exit
  test: screenshot number \<open>i\<close>, scroll, sleep, read of the scroll position.
\<close>

definition scroll_iteration :: "'w env \<Rightarrow> string \<Rightarrow> nat \<Rightarrow> (int, 'w, event) prog" where
  "scroll_iteration env filepath i =
     bindP (call (SaveScreenshot (screenshot_name filepath i)) VBool
              (save_screenshot env (screenshot_name filepath i))) (\<lambda>_.
     bindP (call (ExecuteScript scroll_script) unit_val (scroll_by_inner_height env)) (\<lambda>_.
     bindP (call (Sleep 2) unit_val (sleep env 2)) (\<lambda>_.
     call (ExecuteScript offset_script) VInt (page_y_offset env))))"

text \<open>
  The position read in pass \<open>k\<close> and the world after it, when passes \<open>j, j + 1, \<dots>\<close> are
  made from \<open>w\<close> and none raises; before the first pass the position is \<open>h\<close>.
\<close>

primrec scrolls :: "nat \<Rightarrow> 'w env \<Rightarrow> string \<Rightarrow> nat \<Rightarrow> int \<Rightarrow> 'w \<Rightarrow> (int \<times> 'w) option" where
  "scrolls 0 env filepath j h w = Some (h, w)"
| "scrolls (Suc k) env filepath j h w =
     (case scroll_iteration env filepath j w of
        (Return h', w1, t) \<Rightarrow> scrolls k env filepath (Suc j) h' w1
      | (Raise e, w1, t) \<Rightarrow> None
      | (OutOfFuel, w1, t) \<Rightarrow> None)"

text \<open>
  Pass \<open>k + 1\<close> reads the position that pass \<open>k\<close> read (for \<open>k = 0\<close>: the position 0
  with which \<open>last_height\<close> starts).
\<close>

definition settles :: "'w env \<Rightarrow> string \<Rightarrow> 'w \<Rightarrow> nat \<Rightarrow> bool" where
  "settles env filepath w k =
     (case scrolls k env filepath 0 0 w of
        None \<Rightarrow> False
      | Some (h1, w1) \<Rightarrow>
          (case scrolls (Suc k) env filepath 0 0 w of
             None \<Rightarrow> False
           | Some (h2, w2) \<Rightarrow> h1 = h2))"

definition iteration_actions :: "string \<Rightarrow> nat \<Rightarrow> action list" where
  "iteration_actions filepath i =
     [SaveScreenshot (screenshot_name filepath i), ExecuteScript scroll_script, Sleep 2,
      ExecuteScript offset_script]"

text \<open>The scroll positions read, in order.\<close>

fun offset_read :: "event \<Rightarrow> int option" where
  "offset_read (ExecuteScript s, Ok (VInt v)) = (if s = offset_script then Some v else None)"
| "offset_read _ = None"

definition offset_reads :: "event list \<Rightarrow> int list" where
  "offset_reads T = List.map_filter offset_read T"

definition succeeded :: "event \<Rightarrow> bool" where
  "succeeded ev = (case snd ev of Ok v \<Rightarrow> True | Failed e \<Rightarrow> False)"

subsection \<open>Properties of all events of a program\<close>

text \<open>
  \<open>yields E R m\<close>: from every world, every event of \<open>m\<close> satisfies \<open>E\<close> and a value
  that \<open>m\<close> returns satisfies \<open>R\<close>.
\<close>

definition yields :: "('e \<Rightarrow> bool) \<Rightarrow> ('a \<Rightarrow> bool) \<Rightarrow> ('a, 'w, 'e) prog \<Rightarrow> bool" where
  "yields E R m =
     (\<forall>w. (\<forall>ev \<in> set (snd (snd (m w))). E ev) \<and> (\<forall>x. fst (m w) = Return x \<longrightarrow> R x))"

text \<open>The actions that occur at each site of the page loop.\<close>

fun capture_action :: "action \<Rightarrow> bool" where
  "capture_action (SaveScreenshot f) = True"
| "capture_action (ExecuteScript s) = True"
| "capture_action (Sleep n) = True"
| "capture_action a = False"

fun stitch_action :: "action \<Rightarrow> bool" where
  "stitch_action (Call_stitch_images_vertically images out) = True"
| "stitch_action (ImageOpen f) = True"
| "stitch_action (ImageSave f) = True"
| "stitch_action a = False"

fun detect_action :: "action \<Rightarrow> bool" where
  "detect_action (FindElements loc) = True"
| "detect_action (ReadBase64 f) = True"
| "detect_action (GetLocation e) = True"
| "detect_action a = False"

fun ask_action :: "action \<Rightarrow> bool" where
  "ask_action (FindElements loc) = True"
| "ask_action (GetAttribute e a) = True"
| "ask_action (PostChatCompletions msgs) = True"
| "ask_action (CreateChatCompletion msgs) = True"
| "ask_action a = False"

fun inject_action :: "action \<Rightarrow> bool" where
  "inject_action (FindChildren e loc) = True"
| "inject_action (FindChild e loc) = True"
| "inject_action (Click e) = True"
| "inject_action (SendKeys e keys) = True"
| "inject_action (SelectInit e) = True"
| "inject_action (SelectByValue e v) = True"
| "inject_action (Sleep n) = True"
| "inject_action a = False"

fun dump_action :: "action \<Rightarrow> bool" where
  "dump_action (JsonDump f msgs) = True"
| "dump_action a = False"

fun advance_action :: "action \<Rightarrow> bool" where
  "advance_action (WaitUntilFind t loc) = True"
| "advance_action (Click e) = True"
| "advance_action (LogError msg) = True"
| "advance_action (Sleep n) = True"
| "advance_action a = False"

fun site_ok :: "site \<Rightarrow> action \<Rightarrow> bool" where
  "site_ok Capture a = capture_action a"
| "site_ok Stitch a = stitch_action a"
| "site_ok Detect a = detect_action a"
| "site_ok (Ask i) a = ask_action a"
| "site_ok (Inject i) a = inject_action a"
| "site_ok Dump a = dump_action a"
| "site_ok Advance a = advance_action a"

text \<open>The call marker of \<open>stitch_images_vertically\<close> and the dump of the thread.\<close>

fun special :: "action \<Rightarrow> bool" where
  "special (Call_stitch_images_vertically images out) = True"
| "special (JsonDump f msgs) = True"
| "special a = False"

fun stitch_call_nonempty :: "event \<Rightarrow> bool" where
  "stitch_call_nonempty (Call_stitch_images_vertically images out, oc) = (images \<noteq> [])"
| "stitch_call_nonempty ev = True"

subsection \<open>The thread\<close>

text \<open>
  A message whose content holds a text part: in the script these are the user messages
  that carry the HTML of a question.
\<close>

fun is_text_part :: "part \<Rightarrow> bool" where
  "is_text_part (TextPart t) = True"
| "is_text_part (ImageUrl u) = False"

definition question_message :: "message \<Rightarrow> bool" where
  "question_message msg = (case content msg of Parts ps \<Rightarrow> \<exists>p \<in> set ps. is_text_part p | Plain s \<Rightarrow> False)"

definition no_question :: "message list \<Rightarrow> bool" where
  "no_question msgs = (\<forall>msg \<in> set msgs. \<not> question_message msg)"

text \<open>The thread grew by one assistant message with plain text.\<close>

definition one_summary_added :: "message list \<Rightarrow> message list \<Rightarrow> bool" where
  "one_summary_added before after = (\<exists>s. after = before @ [Message ''assistant'' (Plain s)])"

subsection \<open>Requests to the completion API\<close>

text \<open>The payloads of the requests of \<open>answer_survey_choice\<close> and \<open>answer_survey_other\<close>, in order.\<close>

fun post_payload :: "site \<times> event \<Rightarrow> message list option" where
  "post_payload (s, PostChatCompletions msgs, oc) = Some msgs"
| "post_payload ev = None"

definition posts :: "(site \<times> event) list \<Rightarrow> message list list" where
  "posts T = List.map_filter post_payload T"

definition is_summary :: "message \<Rightarrow> bool" where
  "is_summary msg = (role msg = ''assistant'' \<and> (case content msg of Plain t \<Rightarrow> True | Parts ps \<Rightarrow> False))"

text \<open>
  The user message of a question: the content buffer \<open>buffer\<close> followed by the text part
  with the HTML of the question.
\<close>

definition question_user_message :: "part list \<Rightarrow> message \<Rightarrow> bool" where
  "question_user_message buffer msg =
     (\<exists>html. msg = Message ''user'' (Parts (buffer @ [TextPart (question_text html)])))"

text \<open>
  Request number \<open>j\<close> of a page that starts with the thread \<open>messages0\<close> and the content
  buffer \<open>content0\<close>: the thread, \<open>j\<close> summaries, and the user message of the question,
  which holds \<open>content0\<close> in the first request and only the question's text afterwards.
\<close>

definition question_request :: "message list \<Rightarrow> part list \<Rightarrow> nat \<Rightarrow> message list \<Rightarrow> bool" where
  "question_request messages0 content0 j req =
     (\<exists>sums msg. req = messages0 @ sums @ [msg]
        \<and> question_user_message (if j = 0 then content0 else []) msg
        \<and> length sums = j \<and> (\<forall>s \<in> set sums. is_summary s))"

fun dump_without_question :: "event \<Rightarrow> bool" where
  "dump_without_question (JsonDump f msgs, oc) = (f = ''messages.json'' \<and> no_question msgs)"
| "dump_without_question ev = True"

definition has_image_part :: "message \<Rightarrow> bool" where
  "has_image_part msg = (case content msg of Parts ps \<Rightarrow> \<exists>p \<in> set ps. \<not> is_text_part p | Plain s \<Rightarrow> False)"

definition stitched_name :: "nat \<Rightarrow> string" where
  "stitched_name page_index = ''stitched/survey_screenshot_'' @ str_nat page_index @ ''.png''"

subsection \<open>Kinds of question\<close>

definition kinds :: "qkind list" where
  "kinds = [CbcTask, SelectTag, QuestionNumeric, ResponseColumn, Textarea]"

text \<open>The kinds that the chain tests before it settles on \<open>ko\<close> (all of them for \<open>None\<close>).\<close>

definition kinds_before :: "qkind option \<Rightarrow> qkind list" where
  "kinds_before ko = (case ko of None \<Rightarrow> kinds | Some k \<Rightarrow> takeWhile (\<lambda>k'. k' \<noteq> k) kinds)"

text \<open>The kinds whose answer comes from \<open>answer_survey_choice\<close>.\<close>

fun choice_kind :: "qkind \<Rightarrow> bool" where
  "choice_kind CbcTask = True"
| "choice_kind SelectTag = True"
| "choice_kind ResponseColumn = True"
| "choice_kind QuestionNumeric = False"
| "choice_kind Textarea = False"

text \<open>The search for kind \<open>k\<close> is among the events and found the element (\<open>b\<close>) or not.\<close>

definition looked :: "event list \<Rightarrow> qkind \<Rightarrow> elem \<Rightarrow> bool \<Rightarrow> bool" where
  "looked T k element b =
     (\<exists>xs. (FindElements (kind_locator k), Ok (VElems xs)) \<in> set T \<and> (element \<in> set xs) = b)"

section \<open>Example inputs\<close>

definition red_strip :: image where
  "red_strip = \<lparr>width = 2, height = 1, pixel = (\<lambda>x y. (255, 0, 0))\<rparr>"


text \<open>
  A survey of two pages. A page is 900 pixels longer than the window, which is 600
  pixels high. The first page has a text area (element 2) above a choice task
  (element 1) with the buttons 10 and 11, and a next button (element 99); the second
  page has no question and no next button. The API answers every request with \<open>reply\<close>.
\<close>

record demo_world =
  scroll_pos :: int
  page_no :: nat

definition demo_start :: demo_world where
  "demo_start = \<lparr>scroll_pos = 0, page_no = 0\<rparr>"

definition demo_elements :: "locator \<Rightarrow> elem list" where
  "demo_elements loc =
     (if loc = ByClassName ''cbc_task'' then [1]
      else if loc = ByTagName ''textarea'' then [2]
      else [])"

definition demo_location :: "elem \<Rightarrow> int \<times> int" where
  "demo_location e = (if e = 1 then (0, 50) else (0, 10))"

definition demo_env :: "string \<Rightarrow> demo_world env" where
  "demo_env reply = \<lparr>
     save_screenshot = (\<lambda>filename w. (Inr True, w)),
     scroll_by_inner_height = (\<lambda>w. (Inr (), w\<lparr>scroll_pos := min (scroll_pos w + 600) 900\<rparr>)),
     page_y_offset = (\<lambda>w. (Inr (scroll_pos w), w)),
     sleep = (\<lambda>n w. (Inr (), w)),
     image_open = (\<lambda>filename w. (Inr red_strip, w)),
     image_save = (\<lambda>filename img w. (Inr (), w)),
     find_elements = (\<lambda>loc w. (Inr (if page_no w = 0 then demo_elements loc else []), w)),
     read_base64 = (\<lambda>filename w. (Inr ''aGk='', w)),
     location = (\<lambda>e w. (Inr (demo_location e), w)),
     get_attribute = (\<lambda>e a w. (Inr ''<p>q</p>'', w)),
     post_chat_completions = (\<lambda>msgs w. (Inr reply, w)),
     create_chat_completion = (\<lambda>msgs w. (Inr ''ok'', w)),
     find_child_elements = (\<lambda>e loc w. (Inr [10, 11], w)),
     find_child_element = (\<lambda>e loc w. (Inr 20, w)),
     click = (\<lambda>e w. (Inr (), if e = 99 then \<lparr>scroll_pos = 0, page_no = page_no w + 1\<rparr> else w)),
     send_keys = (\<lambda>e keys w. (Inr (), w)),
     select_init = (\<lambda>e w. (Inr (), w)),
     select_by_value = (\<lambda>e v w. (Inr (), w)),
     json_dump = (\<lambda>filename msgs w. (Inr (), w)),
     wait_until_find = (\<lambda>t loc w. (if page_no w = 0 then Inr 99 else Inl TimeoutException, w))
   \<rparr>"

definition demo_profile :: profile where
  "demo_profile = \<lparr>age = ''30'', gender = ''Female'', Country_origin = ''Germany'',
     ethnicity = ''White'', Country = ''Germany'', student_text = ''You are not a student'',
     work_status = ''Full-Time''\<rparr>"

text \<open>
  The same survey behind an introduction: the first page has no question and a next
  button, the second page has the two questions and no next button.
\<close>

definition intro_env :: "string \<Rightarrow> demo_world env" where
  "intro_env reply = (demo_env reply)\<lparr>
     find_elements := (\<lambda>loc w. (Inr (if page_no w = 1 then demo_elements loc else []), w))\<rparr>"

section \<open>Programs: case analysis and event properties\<close>

lemma bindP_cases:
  assumes "bindP m f w = (r, w', T)"
  obtains (continue) x w1 t1 t2 where "m w = (Return x, w1, t1)" "f x w1 = (r, w', t2)" "T = t1 @ t2"
    | (raised) e where "m w = (Raise e, w', T)" "r = Raise e"
    | (starved) "m w = (OutOfFuel, w', T)" "r = OutOfFuel"
  using assms by (auto simp: bindP_def split: prod.splits result.splits)

lemma call_cases:
  assumes "call a to_val f w = (r, w', T)"
  obtains (ok) x where "f w = (Inr x, w')" "r = Return x" "T = [(a, Ok (to_val x))]"
    | (failed) e where "f w = (Inl e, w')" "r = Raise e" "T = [(a, Failed e)]"
  using assms by (auto simp: call_def split: prod.splits sum.splits)

lemma at_cases:
  assumes "at l m w = (r, w', T)"
  obtains t where "m w = (r, w', t)" "T = map (Pair l) t"
  using assms by (auto simp: at_def split: prod.splits)

lemma bindP_assoc: "bindP (bindP m f) g = bindP m (\<lambda>x. bindP (f x) g)"
  by (auto simp: bindP_def fun_eq_iff split: prod.splits result.splits)

lemma bindP_ret [simp]: "bindP (ret x) f = f x"
  by (auto simp: bindP_def ret_def fun_eq_iff split: prod.splits)

named_theorems yields_intros

lemma yields_ret [yields_intros]: "R x \<Longrightarrow> yields E R (ret x)"
  by (simp add: yields_def ret_def)

lemma yields_raise [yields_intros]: "yields E R (raise e)"
  by (simp add: yields_def raise_def)

lemma yields_out_of_fuel [yields_intros]: "yields E R out_of_fuel"
  by (simp add: yields_def out_of_fuel_def)

lemma yields_call [yields_intros]: "(\<And>oc. E (a, oc)) \<Longrightarrow> yields E (\<lambda>x. True) (call a to_val f)"
  by (auto simp: yields_def call_def split: prod.splits sum.splits)

lemma yields_emit [yields_intros]: "E (a, Ok VUnit) \<Longrightarrow> yields E (\<lambda>x. True) (emit a)"
  by (simp add: yields_def emit_def)

lemma yields_bind:
  assumes "yields E R m" and "\<And>x. R x \<Longrightarrow> yields E S (f x)"
  shows "yields E S (bindP m f)"
  unfolding yields_def
proof (intro allI conjI ballI impI)
  fix w
  obtain r w1 t1 where mw: "m w = (r, w1, t1)" by (cases "m w")
  have m1: "\<forall>ev \<in> set t1. E ev" and m2: "\<And>x. r = Return x \<Longrightarrow> R x"
    using assms(1) mw by (auto simp: yields_def dest: spec[of _ w])
  { fix ev assume "ev \<in> set (snd (snd (bindP m f w)))"
    then show "E ev"
    proof (cases r)
      case (Return x)
      obtain r2 w2 t2 where fw: "f x w1 = (r2, w2, t2)" by (cases "f x w1")
      have "\<forall>ev \<in> set t2. E ev"
        using assms(2)[OF m2[OF Return]] fw by (auto simp: yields_def dest: spec[of _ w1])
      with \<open>ev \<in> set (snd (snd (bindP m f w)))\<close> m1 show ?thesis
        by (auto simp: bindP_def mw Return fw)
    qed (use \<open>ev \<in> set (snd (snd (bindP m f w)))\<close> m1 in \<open>auto simp: bindP_def mw\<close>)
  }
  { fix y assume ret: "fst (bindP m f w) = Return y"
    show "S y"
    proof (cases r)
      case (Return x)
      obtain r2 w2 t2 where fw: "f x w1 = (r2, w2, t2)" by (cases "f x w1")
      from ret have "r2 = Return y" by (simp add: bindP_def mw Return fw)
      with assms(2)[OF m2[OF Return]] fw show ?thesis
        by (auto simp: yields_def dest: spec[of _ w1])
    qed (use ret in \<open>auto simp: bindP_def mw\<close>)
  }
qed

lemma yields_bind_any [yields_intros]:
  "yields E (\<lambda>x. True) m \<Longrightarrow> (\<And>x. yields E S (f x)) \<Longrightarrow> yields E S (bindP m f)"
  by (rule yields_bind)

lemma yields_at [yields_intros]:
  assumes "yields (\<lambda>ev. E (l, ev)) R m"
  shows "yields E R (at l m)"
  unfolding yields_def
proof (intro allI)
  fix w
  obtain r w1 t where mw: "m w = (r, w1, t)" by (cases "m w")
  from assms mw have "(\<forall>ev \<in> set t. E (l, ev)) \<and> (\<forall>x. r = Return x \<longrightarrow> R x)"
    by (auto simp: yields_def dest: spec[of _ w])
  then show "(\<forall>ev \<in> set (snd (snd (at l m w))). E ev) \<and> (\<forall>x. fst (at l m w) = Return x \<longrightarrow> R x)"
    by (auto simp: at_def mw)
qed

lemma yields_weaken: "yields E R m \<Longrightarrow> (\<And>x. R x \<Longrightarrow> R' x) \<Longrightarrow> yields E R' m"
  by (auto simp: yields_def)

lemma yields_any: "yields E R m \<Longrightarrow> yields E (\<lambda>x. True) m"
  by (auto simp: yields_def)

lemma yields_case_prod [yields_intros]:
  "(\<And>a b. yields E R (f a b)) \<Longrightarrow> yields E R (case_prod f x)"
  by (cases x) simp

lemma yields_if [yields_intros]:
  "(b \<Longrightarrow> yields E R m1) \<Longrightarrow> (\<not> b \<Longrightarrow> yields E R m2) \<Longrightarrow> yields E R (if b then m1 else m2)"
  by simp

lemma yields_for_each [yields_intros]:
  "(\<And>x. yields E (\<lambda>y. True) (f x)) \<Longrightarrow> yields E (\<lambda>ys. True) (for_each f xs)"
  by (induction xs) (auto intro!: yields_intros)

lemma yieldsD_events: "yields E R m \<Longrightarrow> m w = (r, w', T) \<Longrightarrow> ev \<in> set T \<Longrightarrow> E ev"
  by (auto simp: yields_def dest: spec[of _ w])

lemma yieldsD_return: "yields E R m \<Longrightarrow> m w = (Return x, w', T) \<Longrightarrow> R x"
  by (auto simp: yields_def dest: spec[of _ w])

section \<open>Stitching\<close>






section \<open>Scrolling screenshots\<close>

lemma take_screenshots_loop_Suc:
  "take_screenshots_loop (Suc fuel) env fp shots h =
     bindP (scroll_iteration env fp (length shots)) (\<lambda>h'.
       if h' = h then ret (shots @ [screenshot_name fp (length shots)])
       else take_screenshots_loop fuel env fp (shots @ [screenshot_name fp (length shots)]) h')"
  by (simp add: scroll_iteration_def bindP_assoc Let_def)

declare take_screenshots_loop.simps(2) [simp del]

lemma scroll_iteration_shape:
  "scroll_iteration env fp i w = (Return h', w1, t) \<Longrightarrow>
     map fst t = iteration_actions fp i \<and> (\<forall>ev \<in> set t. succeeded ev) \<and> offset_reads t = [h']"
  by (auto simp: scroll_iteration_def iteration_actions_def succeeded_def offset_reads_def
        List.map_filter_simps offset_script_def scroll_script_def unit_val_def
        elim!: bindP_cases call_cases)

lemma offset_reads_append: "offset_reads (a @ b) = offset_reads a @ offset_reads b"
  by (simp add: offset_reads_def List.map_filter_def)

lemma take_screenshots_loop_shape:
  "take_screenshots_loop fuel env fp shots h w = (Return out, w', T) \<Longrightarrow>
     \<exists>n > 0. n \<le> fuel
       \<and> out = shots @ map (screenshot_name fp) [length shots..<length shots + n]
       \<and> map fst T = concat (map (iteration_actions fp) [length shots..<length shots + n])
       \<and> (\<forall>ev \<in> set T. succeeded ev)
       \<and> length (offset_reads T) = n
       \<and> (h # offset_reads T) ! n = (h # offset_reads T) ! (n - 1)
       \<and> (\<forall>j < n - 1. (h # offset_reads T) ! Suc j \<noteq> (h # offset_reads T) ! j)"
proof (induction fuel arbitrary: shots h w T)
  case 0
  then show ?case by (simp add: out_of_fuel_def)
next
  case (Suc fuel)
  let ?name = "screenshot_name fp (length shots)"
  from Suc.prems obtain h' w1 t1 t2 where
    it: "scroll_iteration env fp (length shots) w = (Return h', w1, t1)"
    and rest: "(if h' = h then ret (shots @ [?name])
                else take_screenshots_loop fuel env fp (shots @ [?name]) h') w1 = (Return out, w', t2)"
    and T: "T = t1 @ t2"
    unfolding take_screenshots_loop_Suc by (elim bindP_cases) auto
  note sh = scroll_iteration_shape[OF it]
  show ?case
  proof (cases "h' = h")
    case True
    with rest have "out = shots @ [?name]" "t2 = []" by (auto simp: ret_def)
    with sh T True show ?thesis
      by (intro exI[of _ 1]) simp
  next
    case False
    with rest have inner: "take_screenshots_loop fuel env fp (shots @ [?name]) h' w1 = (Return out, w', t2)"
      by simp
    have len: "length (shots @ [?name]) = Suc (length shots)" by simp
    from Suc.IH[OF inner, unfolded len] obtain n where n: "n > 0" "n \<le> fuel"
      "out = (shots @ [?name]) @ map (screenshot_name fp) [Suc (length shots)..<Suc (length shots) + n]"
      "map fst t2 = concat (map (iteration_actions fp) [Suc (length shots)..<Suc (length shots) + n])"
      "\<forall>ev \<in> set t2. succeeded ev"
      "length (offset_reads t2) = n"
      "(h' # offset_reads t2) ! n = (h' # offset_reads t2) ! (n - 1)"
      "\<forall>j < n - 1. (h' # offset_reads t2) ! Suc j \<noteq> (h' # offset_reads t2) ! j"
      by blast
    have reads: "offset_reads T = h' # offset_reads t2"
      using sh T by (simp add: offset_reads_append)
    have up: "[length shots..<length shots + Suc n] = length shots # [Suc (length shots)..<Suc (length shots) + n]"
      by (simp add: upt_rec)
    have 1: "out = shots @ map (screenshot_name fp) [length shots..<length shots + Suc n]"
      using n(3) unfolding up by simp
    have 2: "map fst T = concat (map (iteration_actions fp) [length shots..<length shots + Suc n])"
      using n(4) sh T unfolding up by simp
    have 3: "\<forall>ev \<in> set T. succeeded ev" using n(5) sh T by auto
    have 4: "length (offset_reads T) = Suc n" using reads n(6) by simp
    have 5: "(h # offset_reads T) ! Suc n = (h # offset_reads T) ! (Suc n - 1)"
      using n(7) n(1) reads by (cases n) simp_all
    have 6: "\<forall>j < Suc n - 1. (h # offset_reads T) ! Suc j \<noteq> (h # offset_reads T) ! j"
    proof (intro allI impI)
      fix j assume j: "j < Suc n - 1"
      show "(h # offset_reads T) ! Suc j \<noteq> (h # offset_reads T) ! j"
      proof (cases j)
        case 0
        then show ?thesis using reads False by simp
      next
        case (Suc i)
        then have "i < n - 1" using j by simp
        with n(8) have "(h' # offset_reads t2) ! Suc i \<noteq> (h' # offset_reads t2) ! i" by blast
        then show ?thesis using Suc reads by simp
      qed
    qed
    show ?thesis
      using 1 2 3 4 5 6 n(2) by (intro exI[of _ "Suc n"]) simp
  qed
qed

lemma take_screenshots_loop_terminates:
  "scrolls k env fp (length shots) h w = Some (h1, w1) \<Longrightarrow>
   scrolls (Suc k) env fp (length shots) h w = Some (h1, w2) \<Longrightarrow>
     \<exists>n out w' T. 0 < n \<and> n \<le> Suc k \<and> length out = length shots + n
        \<and> (\<forall>fuel \<ge> n. take_screenshots_loop fuel env fp shots h w = (Return out, w', T))"
proof (induction k arbitrary: shots h w)
  case 0
  let ?name = "screenshot_name fp (length shots)"
  from 0 obtain wa t where it: "scroll_iteration env fp (length shots) w = (Return h, wa, t)"
    by (auto split: prod.splits result.splits)
  have "take_screenshots_loop fuel env fp shots h w = (Return (shots @ [?name]), wa, t)"
    if "fuel \<ge> 1" for fuel
  proof -
    from that obtain f where "fuel = Suc f" by (cases fuel) auto
    then show ?thesis
      by (simp only: take_screenshots_loop_Suc) (simp add: bindP_def it ret_def)
  qed
  then show ?case by (intro exI[of _ 1] exI[of _ "shots @ [?name]"]) auto
next
  case (Suc k)
  let ?name = "screenshot_name fp (length shots)"
  from Suc.prems(1) obtain h' wa t where
    it: "scroll_iteration env fp (length shots) w = (Return h', wa, t)"
    and s1: "scrolls k env fp (Suc (length shots)) h' wa = Some (h1, w1)"
    by (auto split: prod.splits result.splits)
  from Suc.prems(2) it have s2: "scrolls (Suc k) env fp (Suc (length shots)) h' wa = Some (h1, w2)"
    by simp
  show ?case
  proof (cases "h' = h")
    case True
    have "take_screenshots_loop fuel env fp shots h w = (Return (shots @ [?name]), wa, t)"
      if "fuel \<ge> 1" for fuel
    proof -
      from that obtain f where "fuel = Suc f" by (cases fuel) auto
      then show ?thesis using True
        by (simp only: take_screenshots_loop_Suc) (simp add: bindP_def it ret_def)
    qed
    then show ?thesis by (intro exI[of _ 1] exI[of _ "shots @ [?name]"]) auto
  next
    case False
    from Suc.IH[of "shots @ [?name]" h' wa] s1 s2
    obtain n out w' T where n: "0 < n" "n \<le> Suc k" "length out = Suc (length shots) + n"
      "\<forall>fuel \<ge> n. take_screenshots_loop fuel env fp (shots @ [?name]) h' wa = (Return out, w', T)"
      by auto
    have "take_screenshots_loop fuel env fp shots h w = (Return out, w', t @ T)"
      if "fuel \<ge> Suc n" for fuel
    proof -
      from that obtain f where f: "fuel = Suc f" "f \<ge> n" by (cases fuel) auto
      with n(4) have "take_screenshots_loop f env fp (shots @ [?name]) h' wa = (Return out, w', T)"
        by blast
      then show ?thesis using False f
        by (simp only: take_screenshots_loop_Suc) (simp add: bindP_def it)
    qed
    then show ?thesis using n(1,2,3) by (intro exI[of _ "Suc n"] exI[of _ out]) auto
  qed
qed

text \<open>
  C5. When some pass of the loop reads the scroll position that the pass before it read
  (and no operation raises up to there), \<open>take_screenshots_scroll\<close> returns: with
  enough fuel, and then with any more, the result is the same. It returns after \<open>n\<close>
  passes with \<open>n\<close> file names; its events are \<open>n\<close> times screenshot, scroll, sleep, read
  of the position, so the first event is the first screenshot, taken before any scroll,
  and there is one screenshot per pass; the position read last equals the one that was
  known when the last screenshot was taken (the one read in the pass before, or the 0
  from which \<open>last_height\<close> starts).
\<close>

theorem take_screenshots_scroll_terminates:
  assumes "settles env filepath w k"
  shows "\<exists>n shots w' T. 0 < n \<and> n \<le> Suc k
     \<and> (\<forall>fuel \<ge> n. take_screenshots_scroll fuel env filepath w = (Return shots, w', T))
     \<and> shots = map (screenshot_name filepath) [0..<n]
     \<and> map fst T = concat (map (iteration_actions filepath) [0..<n])
     \<and> (\<forall>ev \<in> set T. succeeded ev)
     \<and> length (offset_reads T) = n
     \<and> (0 # offset_reads T) ! n = (0 # offset_reads T) ! (n - 1)"
proof -
  from assms obtain h w1 w2 where
    "scrolls k env filepath (length ([]::string list)) 0 w = Some (h, w1)"
    "scrolls (Suc k) env filepath (length ([]::string list)) 0 w = Some (h, w2)"
    unfolding settles_def by (auto split: option.splits)
  from take_screenshots_loop_terminates[OF this]
  have "\<exists>n out w' T. 0 < n \<and> n \<le> Suc k \<and> length out = n
          \<and> (\<forall>fuel \<ge> n. take_screenshots_loop fuel env filepath [] 0 w = (Return out, w', T))"
    by simp
  then obtain n out w' T where n: "0 < n" "n \<le> Suc k" "length out = n"
    and run: "\<forall>fuel \<ge> n. take_screenshots_loop fuel env filepath [] 0 w = (Return out, w', T)"
    by blast
  from run have "take_screenshots_loop n env filepath [] 0 w = (Return out, w', T)" by simp
  from take_screenshots_loop_shape[OF this]
  have "\<exists>m > 0. out = map (screenshot_name filepath) [0..<m]
          \<and> map fst T = concat (map (iteration_actions filepath) [0..<m])
          \<and> (\<forall>ev \<in> set T. succeeded ev)
          \<and> length (offset_reads T) = m
          \<and> (0 # offset_reads T) ! m = (0 # offset_reads T) ! (m - 1)"
    by simp
  then obtain m where m: "m > 0"
    "out = map (screenshot_name filepath) [0..<m]"
    "map fst T = concat (map (iteration_actions filepath) [0..<m])"
    "\<forall>ev \<in> set T. succeeded ev"
    "length (offset_reads T) = m"
    "(0 # offset_reads T) ! m = (0 # offset_reads T) ! (m - 1)"
    by blast
  have "m = n" using m(2) n(3) by simp
  with n m run show ?thesis
    unfolding take_screenshots_scroll_def by blast
qed

theorem take_screenshots_scroll_terminates_witness:
  "settles (demo_env ''2'') ''s'' demo_start 2
   \<and> (\<exists>n shots w' T. 0 < n \<and> n \<le> 3
        \<and> (\<forall>fuel \<ge> n. take_screenshots_scroll fuel (demo_env ''2'') ''s'' demo_start = (Return shots, w', T))
        \<and> shots = map (screenshot_name ''s'') [0..<n])"
proof -
  have h: "settles (demo_env ''2'') ''s'' demo_start 2" by code_simp
  from take_screenshots_scroll_terminates[OF h] show ?thesis using h
    by (simp add: numeral_3_eq_3) blast
qed

section \<open>Events of the parts of the script\<close>

lemma special_site_ok:
  "site_ok s a \<Longrightarrow> special a \<Longrightarrow> s = Stitch \<or> s = Dump"
  by (cases s; cases a) simp_all

lemma yields_scroll_iteration:
  assumes "\<And>a oc. site_ok Capture a \<Longrightarrow> E (a, oc)"
  shows "yields E (\<lambda>x. True) (scroll_iteration env fp i)"
  unfolding scroll_iteration_def
  by (intro yields_bind_any yields_call assms) simp_all

lemma yields_take_screenshots_loop:
  assumes "\<And>a oc. site_ok Capture a \<Longrightarrow> E (a, oc)"
  shows "yields E (\<lambda>out. out \<noteq> []) (take_screenshots_loop fuel env fp shots h)"
proof (induction fuel arbitrary: shots h)
  case 0
  show ?case by (simp add: yields_out_of_fuel)
next
  case (Suc fuel)
  show ?case
    unfolding take_screenshots_loop_Suc
    by (intro yields_bind_any yields_scroll_iteration assms yields_if yields_ret Suc.IH) simp_all
qed

lemma yields_take_screenshots_scroll:
  assumes "\<And>a oc. site_ok Capture a \<Longrightarrow> E (a, oc)"
  shows "yields E (\<lambda>out. out \<noteq> []) (take_screenshots_scroll fuel env fp)"
  unfolding take_screenshots_scroll_def by (rule yields_take_screenshots_loop) (rule assms)

lemma yields_stitch_images_vertically:
  assumes "\<And>a oc. site_ok Stitch a \<Longrightarrow> \<not> special a \<Longrightarrow> E (a, oc)"
    and "E (Call_stitch_images_vertically images out, Ok VUnit)"
  shows "yields E (\<lambda>x. True) (stitch_images_vertically env images out)"
  unfolding stitch_images_vertically_def
  by (auto intro!: yields_bind_any yields_emit yields_for_each yields_call yields_raise assms
           split: sum.splits)

lemma yields_find_kind:
  assumes "\<And>loc oc. E (FindElements loc, oc)"
  shows "yields E (\<lambda>x. True) (find_kind env k)"
  unfolding find_kind_def by (intro yields_call assms)

lemma yields_find_all_questions:
  assumes "\<And>a oc. site_ok Detect a \<Longrightarrow> E (a, oc)"
  shows "yields E (\<lambda>x. True) (find_all_questions env)"
  unfolding find_all_questions_def
  by (intro yields_bind_any yields_find_kind yields_ret assms) simp_all

lemma yields_encode_image:
  assumes "\<And>a oc. site_ok Detect a \<Longrightarrow> E (a, oc)"
  shows "yields E (\<lambda>x. True) (encode_image env path)"
  unfolding encode_image_def by (intro yields_call assms) simp_all

lemma yields_sorted_by_position:
  assumes "\<And>a oc. site_ok Detect a \<Longrightarrow> E (a, oc)"
  shows "yields E (\<lambda>x. True) (sorted_by_position env qs)"
  unfolding sorted_by_position_def get_position_def
  by (intro yields_bind_any yields_for_each yields_call yields_ret assms) simp_all

lemma yields_dispatch:
  assumes "\<And>loc oc. E (FindElements loc, oc)"
  shows "yields E (\<lambda>x. True) (dispatch env element)"
  unfolding dispatch_def is_kind_def
  by (intro yields_bind_any yields_find_kind yields_if yields_ret assms) simp_all

lemma yields_answer_survey_choice:
  assumes "\<And>oc. E (PostChatCompletions msgs, oc)"
  shows "yields E (\<lambda>x. True) (answer_survey_choice env msgs)"
  unfolding answer_survey_choice_def
  by (auto intro!: yields_bind_any yields_call yields_ret yields_raise assms split: option.splits)

lemma yields_answer_survey_other:
  assumes "\<And>oc. E (PostChatCompletions msgs, oc)"
  shows "yields E (\<lambda>x. True) (answer_survey_other env msgs)"
  unfolding answer_survey_other_def by (intro yields_call assms)

lemma yields_summarize_answer:
  assumes "\<And>msgs oc. E (CreateChatCompletion msgs, oc)"
  shows "yields E (\<lambda>x. True) (summarize_answer env html answer)"
  unfolding summarize_answer_def Let_def by (intro yields_call assms)

lemma yields_pause:
  assumes "\<And>oc. E (Sleep n, oc)"
  shows "yields E (\<lambda>x. True) (pause env n)"
  unfolding pause_def by (intro yields_call assms)

lemma yields_ask:
  assumes E: "\<And>a oc. site_ok (Ask i) a \<Longrightarrow> E (Ask i, a, oc)"
    and fn: "\<And>msgs E'. (\<And>oc. E' (PostChatCompletions msgs, oc)) \<Longrightarrow> yields E' (\<lambda>x. True) (answer_fn msgs)"
  shows "yields E (\<lambda>(answer, c, m). c = [] \<and> one_summary_added messages0 m)
           (ask env i attr answer_fn show element content0 messages0)"
  unfolding ask_def Let_def
  by (intro yields_bind_any yields_at yields_call yields_summarize_answer fn yields_ret E)
     (simp_all add: one_summary_added_def)

lemma yields_branch:
  assumes E: "\<And>a oc. site_ok (Ask i) a \<Longrightarrow> E (Ask i, a, oc)"
    and I: "\<And>a oc. site_ok (Inject i) a \<Longrightarrow> E (Inject i, a, oc)"
  shows "yields E (\<lambda>(c, m). c = [] \<and> one_summary_added messages0 m)
           (branch env k i element content0 messages0)"
proof -
  note asks = yields_ask[where E = E and i = i, OF E yields_answer_survey_choice]
              yields_ask[where E = E and i = i, OF E yields_answer_survey_other]
  show ?thesis
  proof (cases k)
    case CbcTask
    show ?thesis
      unfolding branch_def CbcTask qkind.case cbc_task_branch_def
      apply (rule yields_bind[OF asks(1)])
      apply (auto intro!: yields_bind_any yields_at yields_call yields_pause yields_ret yields_raise I
                  split: sum.splits)
      done
  next
    case SelectTag
    show ?thesis
      unfolding branch_def SelectTag qkind.case select_branch_def
      apply (rule yields_bind[OF asks(1)])
      apply (auto intro!: yields_bind_any yields_at yields_call yields_pause yields_ret I)
      done
  next
    case QuestionNumeric
    show ?thesis
      unfolding branch_def QuestionNumeric qkind.case numeric_branch_def
      apply (rule yields_bind[OF asks(2)])
      apply (auto intro!: yields_bind_any yields_at yields_call yields_pause yields_ret I)
      done
  next
    case ResponseColumn
    show ?thesis
      unfolding branch_def ResponseColumn qkind.case response_column_branch_def
      apply (rule yields_bind[OF asks(1)])
      apply (auto intro!: yields_bind_any yields_at yields_call yields_pause yields_ret I)
      done
  next
    case Textarea
    show ?thesis
      unfolding branch_def Textarea qkind.case textarea_branch_def
      apply (rule yields_bind[OF asks(2)])
      apply (auto intro!: yields_bind_any yields_at yields_call yields_pause yields_ret I)
      done
  qed
qed

lemma no_question_summary:
  "no_question msgs \<Longrightarrow> one_summary_added msgs msgs' \<Longrightarrow> no_question msgs'"
  by (auto simp: no_question_def one_summary_added_def question_message_def)

lemma yields_question_step:
  assumes E: "\<And>a oc. site_ok (Ask i) a \<Longrightarrow> E (Ask i, a, oc)"
    and I: "\<And>a oc. site_ok (Inject i) a \<Longrightarrow> E (Inject i, a, oc)"
    and m0: "no_question messages0"
  shows "yields E (\<lambda>(c, m). no_question m) (question_step env i element content0 messages0)"
  unfolding question_step_def
  apply (rule yields_bind_any)
   apply (intro yields_at yields_dispatch E, simp)
  apply (auto split: option.splits intro!: yields_ret m0
              intro: yields_weaken[OF yields_branch[where E = E and i = i, OF E I]] no_question_summary[OF m0])
  done

lemma yields_question_loop:
  assumes E: "\<And>i a oc. site_ok (Ask i) a \<Longrightarrow> E (Ask i, a, oc)"
    and I: "\<And>i a oc. site_ok (Inject i) a \<Longrightarrow> E (Inject i, a, oc)"
  shows "no_question messages0 \<Longrightarrow>
         yields E (\<lambda>(c, m). no_question m) (question_loop env qs content0 messages0)"
proof (induction qs arbitrary: content0 messages0)
  case Nil
  then show ?case by (simp add: yields_ret)
next
  case (Cons q qs)
  show ?case
    unfolding question_loop.simps
    apply (rule yields_bind[OF yields_question_step[where E = E, OF E I Cons.prems]])
      apply assumption+
    apply (auto intro: Cons.IH)
    done
qed

lemma yields_survey_page:
  assumes E: "\<And>s a oc. site_ok s a \<Longrightarrow> \<not> special a \<Longrightarrow> E (s, a, oc)"
    and stitchE: "\<And>images out oc. images \<noteq> [] \<Longrightarrow> E (Stitch, Call_stitch_images_vertically images out, oc)"
    and dumpE: "\<And>msgs oc. no_question msgs \<Longrightarrow> E (Dump, JsonDump ''messages.json'' msgs, oc)"
    and m0: "no_question messages0"
  shows "yields E (\<lambda>(shots, msgs). shots \<noteq> [] \<and> no_question msgs)
           (survey_page fuel env page_index messages0)"
proof -
  have plain: "E (s, a, oc)" if "site_ok s a" "s \<noteq> Stitch" "s \<noteq> Dump" for s a oc
    using that special_site_ok[of s a] by (intro E) auto
  have loop: "yields E (\<lambda>(c, m). no_question m) (question_loop env qs c messages0)" for qs c
    by (rule yields_question_loop[OF _ _ m0]) (simp_all add: plain)
  have page_msgs: "yields E no_question
          (if length qs = 0 then ret (messages0 @ [Message ''user'' (Parts [ImageUrl u])])
           else bindP (question_loop env (indexed (length qs) sorted) [ImageUrl u] messages0)
                  (\<lambda>(content1, messages1). ret messages1))" for qs sorted u
  proof (cases "length qs = 0")
    case True
    have "no_question (messages0 @ [Message ''user'' (Parts [ImageUrl u])])"
      using m0 by (auto simp: no_question_def question_message_def)
    then show ?thesis using True by (simp add: yields_ret)
  next
    case False
    then show ?thesis
      by (auto intro!: yields_bind[OF loop] yields_ret)
  qed
  show ?thesis
    unfolding survey_page_def Let_def
    apply (rule yields_bind[OF yields_at[OF yields_take_screenshots_scroll]])
     apply (rule plain; simp)
    apply (rule yields_bind_any)
     apply (rule yields_at[OF yields_stitch_images_vertically])
      apply (rule E; simp)
     apply (rule stitchE, assumption)
    apply (rule yields_bind_any)
     apply (rule yields_at[OF yields_find_all_questions], rule plain; simp)
    apply (rule yields_bind_any)
     apply (rule yields_at[OF yields_encode_image], rule plain; simp)
    apply (rule yields_bind_any)
     apply (rule yields_at[OF yields_sorted_by_position], rule plain; simp)
    apply (rule yields_bind[OF page_msgs])
    apply (rule yields_bind_any)
     apply (rule yields_at[OF yields_call])
     apply (rule dumpE, assumption)
    apply (rule yields_ret)
    apply simp
    done
qed

lemma yields_click_next:
  assumes "\<And>a oc. site_ok Advance a \<Longrightarrow> E (a, oc)"
  shows "yields E (\<lambda>x. True) (click_next env page_index)"
proof -
  have inner: "yields E (\<lambda>x. True)
     (bindP (call (WaitUntilFind 10 (ById ''next_button'')) VElem
               (wait_until_find env 10 (ById ''next_button'')))
        (\<lambda>next_button. call (Click next_button) unit_val (click env next_button)))"
    by (intro yields_bind_any yields_call assms) simp_all
  show ?thesis
    unfolding yields_def click_next_def
  proof (intro allI)
    fix w
    let ?m = "bindP (call (WaitUntilFind 10 (ById ''next_button'')) VElem
               (wait_until_find env 10 (ById ''next_button'')))
        (\<lambda>next_button. call (Click next_button) unit_val (click env next_button))"
    obtain r w1 t where mw: "?m w = (r, w1, t)" by (cases "?m w")
    have "\<forall>ev \<in> set t. E ev" using inner mw by (auto simp: yields_def dest: spec[of _ w])
    moreover have "E (LogError (next_button_message page_index), Ok VUnit)"
      by (rule assms) simp
    ultimately show "(\<forall>ev\<in>set (snd (snd (case ?m w of
                   (Return x, w1, t) \<Rightarrow> (Return True, w1, t)
                 | (Raise e, w1, t) \<Rightarrow> (Return False, w1, t @ [(LogError (next_button_message page_index), Ok VUnit)])
                 | (OutOfFuel, w1, t) \<Rightarrow> (OutOfFuel, w1, t)))). E ev) \<and>
          (\<forall>x. fst (case ?m w of
                   (Return x, w1, t) \<Rightarrow> (Return True, w1, t)
                 | (Raise e, w1, t) \<Rightarrow> (Return False, w1, t @ [(LogError (next_button_message page_index), Ok VUnit)])
                 | (OutOfFuel, w1, t) \<Rightarrow> (OutOfFuel, w1, t)) = Return x \<longrightarrow> True)"
      by (cases r) (auto simp: mw)
  qed
qed

lemma yields_page_loop:
  assumes E: "\<And>p s a oc. site_ok s a \<Longrightarrow> \<not> special a \<Longrightarrow> E (p, s, a, oc)"
    and stitchE: "\<And>p images out oc. images \<noteq> [] \<Longrightarrow> E (p, Stitch, Call_stitch_images_vertically images out, oc)"
    and dumpE: "\<And>p msgs oc. no_question msgs \<Longrightarrow> E (p, Dump, JsonDump ''messages.json'' msgs, oc)"
  shows "no_question messages0 \<Longrightarrow>
         yields E (\<lambda>shots. shots \<noteq> []) (page_loop fuel scroll_fuel env page_index messages0)"
proof (induction fuel arbitrary: page_index messages0)
  case 0
  show ?case by (simp add: yields_out_of_fuel)
next
  case (Suc fuel)
  have page: "yields (\<lambda>ev. E (page_index, ev)) (\<lambda>(shots, msgs). shots \<noteq> [] \<and> no_question msgs)
                (survey_page scroll_fuel env page_index messages0)"
    by (rule yields_survey_page[OF E stitchE dumpE Suc.prems])
  have adv: "E (page_index, Advance, a, oc)" if "site_ok Advance a" for a oc
    using that special_site_ok[of Advance a] by (intro E) auto
  show ?case
    unfolding page_loop.simps
    apply (rule yields_bind[OF yields_at[OF page]])
    apply (clarsimp)
    apply (rule yields_bind_any)
     apply (intro yields_at yields_click_next adv, assumption)
    apply (rule yields_if)
     apply (rule yields_ret, assumption)
    apply (rule yields_bind_any)
     apply (intro yields_at yields_pause adv, simp)
    apply (rule yields_weaken[OF Suc.IH])
     apply assumption+
    done
qed

lemma no_question_system: "no_question [system_message p]"
  by (simp add: no_question_def question_message_def system_message_def)

section \<open>The screenshots handed to the stitching\<close>

lemma stitch_call_nonempty_plain: "\<not> special a \<Longrightarrow> stitch_call_nonempty (a, oc)"
  by (cases a) simp_all


text \<open>
  C8. Whenever \<open>take_screenshots_scroll\<close> returns, its list is not empty;
  \<open>stitch_images_vertically\<close> on the empty list raises \<open>ValueError\<close> (the unpacking of
  \<open>zip\<close>, before \<open>max\<close> is reached); and in every run of \<open>fill_survey\<close>, on every
  page, \<open>stitch_images_vertically\<close> is entered with a list of images that is not empty.
\<close>

theorem stitch_never_called_with_no_image:
  "(take_screenshots_scroll fuel env filepath w = (Return shots, w', T) \<longrightarrow> shots \<noteq> [])
   \<and> fst (stitch_images_vertically env [] out w) = Raise ValueError
   \<and> (\<forall>ev \<in> set (snd (snd (fill_survey pages scroll_fuel env p w0))).
        stitch_call_nonempty (snd (snd ev)))"
proof (intro conjI impI ballI)
  assume "take_screenshots_scroll fuel env filepath w = (Return shots, w', T)"
  then show "shots \<noteq> []"
    by (rule yieldsD_return[OF yields_take_screenshots_scroll[where E = "\<lambda>ev. True"], rotated]) simp_all
next
  show "fst (stitch_images_vertically env [] out w) = Raise ValueError"
    by (simp add: stitch_images_vertically_def bindP_def emit_def ret_def raise_def
          stitch_def unzip_sizes_def)
next
  fix ev assume ev: "ev \<in> set (snd (snd (fill_survey pages scroll_fuel env p w0)))"
  obtain r w1 T1 where run: "page_loop pages scroll_fuel env 0 [system_message p] w0 = (r, w1, T1)"
    by (cases "page_loop pages scroll_fuel env 0 [system_message p] w0")
  have "yields (\<lambda>ev. stitch_call_nonempty (snd (snd ev))) (\<lambda>shots. shots \<noteq> [])
          (page_loop pages scroll_fuel env 0 [system_message p])"
    by (rule yields_page_loop) (simp_all add: stitch_call_nonempty_plain no_question_system)
  from yieldsD_events[OF this run] ev run show "stitch_call_nonempty (snd (snd ev))"
    by (simp add: fill_survey_def)
qed

theorem stitch_never_called_with_no_image_witness:
  "fst (take_screenshots_scroll 3 (demo_env ''2'') ''s'' demo_start) = Return [''s_0.png'', ''s_1.png'', ''s_2.png'']
   \<and> [''s_0.png'', ''s_1.png'', ''s_2.png''] \<noteq> ([]::string list)
   \<and> (1, Stitch, Call_stitch_images_vertically
          [''screenshots/screenshot_0.png'', ''screenshots/screenshot_1.png'', ''screenshots/screenshot_2.png'']
          ''stitched/survey_screenshot_1.png'', Ok VUnit)
        \<in> set (snd (snd (fill_survey 2 3 (demo_env ''2'') demo_profile demo_start)))
   \<and> stitch_call_nonempty (Call_stitch_images_vertically
          [''screenshots/screenshot_0.png'', ''screenshots/screenshot_1.png'', ''screenshots/screenshot_2.png'']
          ''stitched/survey_screenshot_1.png'', Ok VUnit)"
proof -
  obtain r w' T where run: "take_screenshots_scroll 3 (demo_env ''2'') ''s'' demo_start = (r, w', T)"
    by (cases "take_screenshots_scroll 3 (demo_env ''2'') ''s'' demo_start")
  have "fst (take_screenshots_scroll 3 (demo_env ''2'') ''s'' demo_start) = Return [''s_0.png'', ''s_1.png'', ''s_2.png'']"
    by code_simp
  with run have r: "r = Return [''s_0.png'', ''s_1.png'', ''s_2.png'']" by simp
  have mem: "(1, Stitch, Call_stitch_images_vertically
          [''screenshots/screenshot_0.png'', ''screenshots/screenshot_1.png'', ''screenshots/screenshot_2.png'']
          ''stitched/survey_screenshot_1.png'', Ok VUnit)
        \<in> set (snd (snd (fill_survey 2 3 (demo_env ''2'') demo_profile demo_start)))"
    by code_simp
  note inst = stitch_never_called_with_no_image[where fuel = 3 and env = "demo_env ''2''"
      and filepath = "''s''" and w = demo_start and shots = "[''s_0.png'', ''s_1.png'', ''s_2.png'']"
      and w' = w' and T = T and pages = 2 and scroll_fuel = 3 and p = demo_profile
      and ?w0.0 = demo_start]
  from inst run r have "[''s_0.png'', ''s_1.png'', ''s_2.png''] \<noteq> ([]::string list)" by blast
  moreover from inst mem have "stitch_call_nonempty (Call_stitch_images_vertically
          [''screenshots/screenshot_0.png'', ''screenshots/screenshot_1.png'', ''screenshots/screenshot_2.png'']
          ''stitched/survey_screenshot_1.png'', Ok VUnit)"
    by (metis snd_conv)
  ultimately show ?thesis using run r mem by simp
qed

section \<open>The requests of a page\<close>

lemma posts_simps [simp]:
  "posts [] = []"
  "posts (a @ b) = posts a @ posts b"
  "posts ((s, PostChatCompletions msgs, oc) # T) = msgs # posts T"
  by (simp_all add: posts_def List.map_filter_def)

lemma posts_other: "post_payload ev = None \<Longrightarrow> posts (ev # T) = posts T"
  by (simp add: posts_def List.map_filter_def)

lemma posts_none: "(\<And>ev. ev \<in> set T \<Longrightarrow> post_payload ev = None) \<Longrightarrow> posts T = []"
  by (induction T) (simp_all add: posts_other)

lemma answer_survey_choice_events:
  "answer_survey_choice env msgs w = (r, w', t) \<Longrightarrow> \<exists>oc. t = [(PostChatCompletions msgs, oc)]"
  by (auto simp: answer_survey_choice_def ret_def raise_def elim!: bindP_cases call_cases
           split: option.splits)

lemma answer_survey_other_events:
  "answer_survey_other env msgs w = (r, w', t) \<Longrightarrow> \<exists>oc. t = [(PostChatCompletions msgs, oc)]"
  by (auto simp: answer_survey_other_def elim!: call_cases)

lemma ask_posts:
  assumes fn: "\<And>msgs w r w' t. answer_fn msgs w = (r, w', t) \<Longrightarrow> \<exists>oc. t = [(PostChatCompletions msgs, oc)]"
    and run: "ask env i attr answer_fn show element content0 messages0 w = (r, w', T)"
  shows "(\<exists>msg. question_user_message content0 msg \<and> posts T = [messages0 @ [msg]])
         \<or> (posts T = [] \<and> (\<forall>x. r \<noteq> Return x))"
  using run unfolding ask_def Let_def summarize_answer_def
  by (elim bindP_cases at_cases call_cases)
     (auto dest!: fn simp: ret_def posts_other question_user_message_def)


lemma bind_ask_posts:
  assumes run: "bindP (ask env i attr answer_fn show element content0 messages0) k w = (r, w', T)"
    and fn: "\<And>msgs w r w' t. answer_fn msgs w = (r, w', t) \<Longrightarrow> \<exists>oc. t = [(PostChatCompletions msgs, oc)]"
    and tail: "\<And>x. yields (\<lambda>ev. post_payload ev = None) (\<lambda>y. True) (k x)"
  shows "(\<exists>msg. question_user_message content0 msg \<and> posts T = [messages0 @ [msg]])
         \<or> (posts T = [] \<and> (\<forall>x. r \<noteq> Return x))"
  using run
proof (cases rule: bindP_cases)
  case (continue x w1 t1 t2)
  have "posts t2 = []"
    by (rule posts_none) (rule yieldsD_events[OF tail continue(2)])
  moreover from ask_posts[OF fn continue(1)]
  have "\<exists>msg. question_user_message content0 msg \<and> posts t1 = [messages0 @ [msg]]" by simp
  ultimately show ?thesis using continue(3) by simp
next
  case (raised e)
  from ask_posts[OF fn raised(1)] raised(2) show ?thesis by auto
next
  case starved
  from ask_posts[OF fn starved(1)] starved(2) show ?thesis by auto
qed

lemma branch_posts:
  assumes "branch env k i element content0 messages0 w = (r, w', T)"
  shows "(\<exists>msg. question_user_message content0 msg \<and> posts T = [messages0 @ [msg]])
         \<or> (posts T = [] \<and> (\<forall>x. r \<noteq> Return x))"
proof (cases k)
  case CbcTask
  with assms show ?thesis
    unfolding branch_def cbc_task_branch_def
    by (simp only: qkind.case)
       (erule bind_ask_posts[OF _ answer_survey_choice_events],
        auto intro!: yields_bind_any yields_at yields_call yields_ret yields_raise
             simp: pause_def split: sum.splits)
next
  case SelectTag
  with assms show ?thesis
    unfolding branch_def select_branch_def
    by (simp only: qkind.case)
       (erule bind_ask_posts[OF _ answer_survey_choice_events],
        auto intro!: yields_bind_any yields_at yields_call yields_ret simp: pause_def)
next
  case QuestionNumeric
  with assms show ?thesis
    unfolding branch_def numeric_branch_def
    by (simp only: qkind.case)
       (erule bind_ask_posts[OF _ answer_survey_other_events],
        auto intro!: yields_bind_any yields_at yields_call yields_ret simp: pause_def)
next
  case ResponseColumn
  with assms show ?thesis
    unfolding branch_def response_column_branch_def
    by (simp only: qkind.case)
       (erule bind_ask_posts[OF _ answer_survey_choice_events],
        auto intro!: yields_bind_any yields_at yields_call yields_ret simp: pause_def)
next
  case Textarea
  with assms show ?thesis
    unfolding branch_def textarea_branch_def
    by (simp only: qkind.case)
       (erule bind_ask_posts[OF _ answer_survey_other_events],
        auto intro!: yields_bind_any yields_at yields_call yields_ret simp: pause_def)
qed

lemma dispatch_no_posts:
  "at (Ask i) (dispatch env element) w = (r, w', T) \<Longrightarrow> posts T = []"
proof (rule posts_none)
  fix ev assume run: "at (Ask i) (dispatch env element) w = (r, w', T)" and ev: "ev \<in> set T"
  have "yields (\<lambda>ev. post_payload ev = None) (\<lambda>y. True) (at (Ask i) (dispatch env element))"
    unfolding dispatch_def is_kind_def find_kind_def
    by (intro yields_at yields_bind_any yields_call yields_if yields_ret) simp_all
  from yieldsD_events[OF this run ev] show "post_payload ev = None" .
qed

lemma question_step_posts:
  assumes "question_step env i element content0 messages0 w = (r, w', T)"
  shows "((\<exists>msg. question_user_message content0 msg \<and> posts T = [messages0 @ [msg]])
            \<and> (\<forall>c m. r = Return (c, m) \<longrightarrow> c = [] \<and> one_summary_added messages0 m))
         \<or> (posts T = [] \<and> (\<forall>c m. r = Return (c, m) \<longrightarrow> c = content0 \<and> m = messages0))"
  using assms unfolding question_step_def
proof (cases rule: bindP_cases)
  case (continue ko w1 t1 t2)
  have p1: "posts t1 = []" by (rule dispatch_no_posts[OF continue(1)])
  show ?thesis
  proof (cases ko)
    case None
    with continue p1 show ?thesis by (auto simp: ret_def)
  next
    case (Some k)
    with continue have br: "branch env k i element content0 messages0 w1 = (r, w', t2)" by simp
    have ret: "c = [] \<and> one_summary_added messages0 m" if "r = Return (c, m)" for c m
      using yieldsD_return[OF yields_branch[where E = "\<lambda>ev. True" and i = i], of env k element content0 messages0 w1 "(c, m)" w' t2]
        br that by simp
    from branch_posts[OF br] show ?thesis
      using p1 continue(3) ret by auto
  qed
next
  case (raised e)
  with dispatch_no_posts[OF raised(1)] show ?thesis by simp
next
  case starved
  with dispatch_no_posts[OF starved(1)] show ?thesis by simp
qed

lemma is_summary_assistant [simp]: "is_summary (Message ''assistant'' (Plain s))"
  by (simp add: is_summary_def)

lemma question_request_first:
  "question_user_message content0 msg \<Longrightarrow> question_request messages0 content0 0 (messages0 @ [msg])"
  unfolding question_request_def by (intro exI[of _ "[]"] exI[of _ msg]) simp

lemma question_request_later:
  assumes "question_request (messages0 @ [s]) [] j req" "is_summary s"
  shows "question_request messages0 content0 (Suc j) req"
proof -
  from assms(1) obtain sums msg where
    "req = (messages0 @ [s]) @ sums @ [msg]" "question_user_message [] msg"
    "length sums = j" "\<forall>x \<in> set sums. is_summary x"
    unfolding question_request_def by (auto split: if_splits)
  with assms(2) show ?thesis
    unfolding question_request_def by (intro exI[of _ "s # sums"] exI[of _ msg]) simp
qed

lemma question_loop_requests:
  "question_loop env qs content0 messages0 w = (r, w', T) \<Longrightarrow>
     (\<forall>j < length (posts T). question_request messages0 content0 j (posts T ! j))
     \<and> (\<forall>c m. r = Return (c, m) \<longrightarrow>
           (if posts T = [] then c = content0 \<and> m = messages0
            else c = [] \<and> (\<exists>sums. m = messages0 @ sums \<and> length sums = length (posts T)
                                \<and> (\<forall>s \<in> set sums. is_summary s))))"
proof (induction qs arbitrary: content0 messages0 w T)
  case Nil
  then show ?case by (auto simp: ret_def)
next
  case (Cons q qs)
  from Cons.prems show ?case
    unfolding question_loop.simps
  proof (cases rule: bindP_cases)
    case (continue x w1 t1 t2)
    obtain c1 m1 where x: "x = (c1, m1)" by (cases x)
    with continue have step: "question_step env (fst q) (snd q) content0 messages0 w1' = (Return (c1, m1), w1, t1)"
      if "w1' = w" for w1' using that by simp
    from continue x have rest: "question_loop env qs c1 m1 w1 = (r, w', t2)" by simp
    note ih = Cons.IH[OF rest]
    from question_step_posts[OF step[OF refl]] show ?thesis
    proof (elim disjE conjE exE)
      fix msg
      assume msg: "question_user_message content0 msg" and p1: "posts t1 = [messages0 @ [msg]]"
        and r1: "\<forall>c m. Return (c1, m1) = Return (c, m) \<longrightarrow> c = [] \<and> one_summary_added messages0 m"
      then obtain s where c1: "c1 = []" and m1: "m1 = messages0 @ [Message ''assistant'' (Plain s)]"
        by (auto simp: one_summary_added_def)
      let ?s = "Message ''assistant'' (Plain s)"
      have P: "posts T = (messages0 @ [msg]) # posts t2" using continue(3) p1 by simp
      have reqs: "question_request messages0 content0 j (posts T ! j)" if "j < length (posts T)" for j
      proof (cases j)
        case 0
        then show ?thesis using P msg by (simp add: question_request_first)
      next
        case (Suc j')
        with that P have "j' < length (posts t2)" by simp
        with ih have "question_request m1 c1 j' (posts t2 ! j')" by blast
        then have "question_request (messages0 @ [?s]) [] j' (posts t2 ! j')" by (simp add: c1 m1)
        from question_request_later[OF this] show ?thesis using Suc P by simp
      qed
      have fin: "c = [] \<and> (\<exists>sums. m = messages0 @ sums \<and> length sums = length (posts T)
                                \<and> (\<forall>s \<in> set sums. is_summary s))" if "r = Return (c, m)" for c m
      proof (cases "posts t2 = []")
        case True
        with ih that have "c = c1 \<and> m = m1" by simp
        then show ?thesis using c1 m1 P True
          by (intro conjI exI[of _ "[?s]"]) simp_all
      next
        case False
        with ih that obtain sums where "c = []" "m = m1 @ sums" "length sums = length (posts t2)"
          "\<forall>s \<in> set sums. is_summary s" by auto
        then show ?thesis using m1 P
          by (intro conjI exI[of _ "?s # sums"]) simp_all
      qed
      show ?thesis using reqs fin P by simp
    next
      assume p1: "posts t1 = []"
        and r1: "\<forall>c m. Return (c1, m1) = Return (c, m) \<longrightarrow> c = content0 \<and> m = messages0"
      then have eq: "c1 = content0" "m1 = messages0" by auto
      have "posts T = posts t2" using p1 continue(3) by simp
      with ih[unfolded eq] show ?thesis by simp
    qed
  next
    case (raised e)
    from question_step_posts[OF raised(1)] raised(2) show ?thesis
      by (auto simp: question_request_first)
  next
    case starved
    from question_step_posts[OF starved(1)] starved(2) show ?thesis
      by (auto simp: question_request_first)
  qed
qed

section \<open>The thread after a question and at the dump\<close>

lemma ask_return:
  "ask env i attr answer_fn show element content0 messages0 w = (Return (a, c, m), w', T) \<Longrightarrow>
     c = [] \<and> (\<exists>s ms. m = messages0 @ [Message ''assistant'' (Plain s)]
                  \<and> (Ask i, CreateChatCompletion ms, Ok (VStr s)) \<in> set T)"
  unfolding ask_def Let_def summarize_answer_def
  by (elim bindP_cases at_cases call_cases) (auto simp: ret_def)

lemma bind_ask_return:
  assumes run: "bindP (ask env i attr answer_fn show element content0 messages0) k w = (Return (c, m), w', T)"
    and tail: "\<And>a c1 m1. yields (\<lambda>ev. True) (\<lambda>(c', m'). c' = c1 \<and> m' = m1) (k (a, c1, m1))"
  shows "c = [] \<and> (\<exists>s ms. m = messages0 @ [Message ''assistant'' (Plain s)]
                  \<and> (Ask i, CreateChatCompletion ms, Ok (VStr s)) \<in> set T)"
  using run
proof (cases rule: bindP_cases)
  case (continue x w1 t1 t2)
  obtain a c1 m1 where x: "x = (a, c1, m1)" by (cases x)
  from yieldsD_return[OF tail continue(2)[unfolded x]] have "c = c1" "m = m1" by auto
  with ask_return[OF continue(1)[unfolded x]] continue(3) show ?thesis by auto
qed simp_all

lemma branch_return:
  assumes "branch env k i element content0 messages0 w = (Return (c, m), w', T)"
  shows "c = [] \<and> (\<exists>s ms. m = messages0 @ [Message ''assistant'' (Plain s)]
                  \<and> (Ask i, CreateChatCompletion ms, Ok (VStr s)) \<in> set T)"
proof (cases k)
  case CbcTask
  with assms show ?thesis
    unfolding branch_def cbc_task_branch_def
    by (simp only: qkind.case)
       (erule bind_ask_return,
        auto intro!: yields_bind_any yields_at yields_call yields_ret yields_raise
             simp: pause_def split: sum.splits)
next
  case SelectTag
  with assms show ?thesis
    unfolding branch_def select_branch_def
    by (simp only: qkind.case)
       (erule bind_ask_return,
        auto intro!: yields_bind_any yields_at yields_call yields_ret simp: pause_def)
next
  case QuestionNumeric
  with assms show ?thesis
    unfolding branch_def numeric_branch_def
    by (simp only: qkind.case)
       (erule bind_ask_return,
        auto intro!: yields_bind_any yields_at yields_call yields_ret simp: pause_def)
next
  case ResponseColumn
  with assms show ?thesis
    unfolding branch_def response_column_branch_def
    by (simp only: qkind.case)
       (erule bind_ask_return,
        auto intro!: yields_bind_any yields_at yields_call yields_ret simp: pause_def)
next
  case Textarea
  with assms show ?thesis
    unfolding branch_def textarea_branch_def
    by (simp only: qkind.case)
       (erule bind_ask_return,
        auto intro!: yields_bind_any yields_at yields_call yields_ret simp: pause_def)
qed

lemma dump_without_question_plain: "\<not> special a \<Longrightarrow> dump_without_question (a, oc)"
  by (cases a) simp_all

text \<open>
  C10. In each of the five branches the only request to the API carries the thread
  followed by the user message of the question, and a branch that returns leaves the
  thread one entry longer: the thread as it was, followed by one assistant message with
  the text that \<open>summarize_answer\<close> returned; so the last message then has the role
  \<open>assistant\<close>. In every run of \<open>fill_survey\<close> every dump goes to \<open>messages.json\<close> and
  holds no message with the text of a question.
\<close>

theorem question_adds_one_summary:
  "(branch env k i element content0 messages0 w = (r, w', T) \<longrightarrow>
       (\<forall>req \<in> set (posts T). \<exists>msg. req = messages0 @ [msg] \<and> question_user_message content0 msg)
     \<and> (\<forall>c m. r = Return (c, m) \<longrightarrow>
          length (posts T) = 1 \<and> length m = length messages0 + 1 \<and> role (last m) = ''assistant''
          \<and> (\<exists>s ms. m = messages0 @ [Message ''assistant'' (Plain s)]
                \<and> (Ask i, CreateChatCompletion ms, Ok (VStr s)) \<in> set T)))
   \<and> (\<forall>ev \<in> set (snd (snd (fill_survey pages scroll_fuel env p w0))).
         dump_without_question (snd (snd ev)))"
proof (intro conjI impI ballI allI)
  assume run: "branch env k i element content0 messages0 w = (r, w', T)"
  note bp = branch_posts[OF run]
  { fix req assume "req \<in> set (posts T)"
    with bp show "\<exists>msg. req = messages0 @ [msg] \<and> question_user_message content0 msg" by auto }
  { fix c m assume r: "r = Return (c, m)"
    with bp show "length (posts T) = 1" by auto
    from branch_return[OF run[unfolded r]] obtain s ms where
      m: "m = messages0 @ [Message ''assistant'' (Plain s)]"
      and ev: "(Ask i, CreateChatCompletion ms, Ok (VStr s)) \<in> set T" by auto
    from m show "length m = length messages0 + 1" by simp
    from m show "role (last m) = ''assistant''" by simp
    from m ev show "\<exists>s ms. m = messages0 @ [Message ''assistant'' (Plain s)]
                \<and> (Ask i, CreateChatCompletion ms, Ok (VStr s)) \<in> set T" by blast }
next
  fix ev assume ev: "ev \<in> set (snd (snd (fill_survey pages scroll_fuel env p w0)))"
  obtain r w1 T1 where run: "page_loop pages scroll_fuel env 0 [system_message p] w0 = (r, w1, T1)"
    by (cases "page_loop pages scroll_fuel env 0 [system_message p] w0")
  have "yields (\<lambda>ev. dump_without_question (snd (snd ev))) (\<lambda>shots. shots \<noteq> [])
          (page_loop pages scroll_fuel env 0 [system_message p])"
    by (rule yields_page_loop) (simp_all add: dump_without_question_plain no_question_system)
  from yieldsD_events[OF this run] ev run show "dump_without_question (snd (snd ev))"
    by (simp add: fill_survey_def)
qed

theorem question_adds_one_summary_witness:
  "fst (branch (demo_env ''2'') CbcTask 0 1 [] [system_message demo_profile] demo_start)
     = Return ([], [system_message demo_profile, Message ''assistant'' (Plain ''ok'')])
   \<and> role (last [system_message demo_profile, Message ''assistant'' (Plain ''ok'')]) = ''assistant''
   \<and> (1, Dump, JsonDump ''messages.json''
          [system_message demo_profile, Message ''assistant'' (Plain ''ok''),
           Message ''assistant'' (Plain ''ok''),
           Message ''user'' (Parts [ImageUrl ''data:image/jpeg;base64,aGk=''])], Ok VUnit)
        \<in> set (snd (snd (fill_survey 2 3 (demo_env ''2'') demo_profile demo_start)))
   \<and> dump_without_question (JsonDump ''messages.json''
          [system_message demo_profile, Message ''assistant'' (Plain ''ok''),
           Message ''assistant'' (Plain ''ok''),
           Message ''user'' (Parts [ImageUrl ''data:image/jpeg;base64,aGk=''])], Ok VUnit)"
proof -
  let ?m = "[system_message demo_profile, Message ''assistant'' (Plain ''ok'')]"
  let ?dump = "JsonDump ''messages.json''
          [system_message demo_profile, Message ''assistant'' (Plain ''ok''),
           Message ''assistant'' (Plain ''ok''),
           Message ''user'' (Parts [ImageUrl ''data:image/jpeg;base64,aGk=''])]"
  obtain r w' T where run:
    "branch (demo_env ''2'') CbcTask 0 1 [] [system_message demo_profile] demo_start = (r, w', T)"
    by (cases "branch (demo_env ''2'') CbcTask 0 1 [] [system_message demo_profile] demo_start")
  have "fst (branch (demo_env ''2'') CbcTask 0 1 [] [system_message demo_profile] demo_start)
          = Return ([], ?m)"
    by code_simp
  with run have r: "r = Return ([], ?m)" by simp
  have mem: "(1, Dump, ?dump, Ok VUnit)
      \<in> set (snd (snd (fill_survey 2 3 (demo_env ''2'') demo_profile demo_start)))"
    by code_simp
  note inst = question_adds_one_summary[where env = "demo_env ''2''" and k = CbcTask and i = 0
      and element = 1 and ?content0.0 = "[]" and ?messages0.0 = "[system_message demo_profile]"
      and w = demo_start and r = r and w' = w' and T = T and pages = 2 and scroll_fuel = 3
      and p = demo_profile and ?w0.0 = demo_start]
  from inst run r have "role (last ?m) = ''assistant''" by blast
  moreover from inst mem have "dump_without_question (?dump, Ok VUnit)"
    by (metis snd_conv)
  ultimately show ?thesis using run r mem by simp
qed

section \<open>The screenshot in the requests of a page\<close>

lemma quiet_actions [simp]:
  "capture_action a \<Longrightarrow> post_payload (s, a, oc) = None"
  "stitch_action a \<Longrightarrow> post_payload (s, a, oc) = None"
  "detect_action a \<Longrightarrow> post_payload (s, a, oc) = None"
  by (cases a; simp)+

lemma bindP_quiet:
  assumes run: "bindP m f w = (r, w', T)"
    and quiet: "yields (\<lambda>ev. post_payload ev = None) (\<lambda>x. True) m"
  obtains (continue) x w1 t1 t2 where "m w = (Return x, w1, t1)" "f x w1 = (r, w', t2)"
      "T = t1 @ t2" "posts T = posts t2"
    | (stopped) "posts T = []"
  using run
proof (cases rule: bindP_cases)
  case (continue x w1 t1 t2)
  have "posts t1 = []" by (rule posts_none) (rule yieldsD_events[OF quiet continue(1)])
  with continue that(1) show ?thesis by simp
next
  case (raised e)
  have "posts T = []" by (rule posts_none) (rule yieldsD_events[OF quiet raised(1)])
  with that(2) show ?thesis .
next
  case starved
  have "posts T = []" by (rule posts_none) (rule yieldsD_events[OF quiet starved(1)])
  with that(2) show ?thesis .
qed

lemma page_questions_posts:
  assumes "(if n = 0 then ret X
            else bindP (question_loop env qs content0 messages0) (\<lambda>(c, m). ret m)) w = (r, w', t)"
  shows "\<forall>j < length (posts t). question_request messages0 content0 j (posts t ! j)"
proof (cases "n = 0")
  case True
  with assms show ?thesis by (simp add: ret_def)
next
  case False
  with assms have "bindP (question_loop env qs content0 messages0) (\<lambda>(c, m). ret m) w = (r, w', t)"
    by simp
  then show ?thesis
  proof (cases rule: bindP_cases)
    case (continue x w1 t1 t2)
    then have "t = t1" by (auto simp: ret_def split: prod.splits)
    with question_loop_requests[OF continue(1)] show ?thesis by simp
  next
    case (raised e)
    with question_loop_requests[OF raised(1)] show ?thesis by simp
  next
    case starved
    with question_loop_requests[OF starved(1)] show ?thesis by simp
  qed
qed

lemma survey_page_requests:
  assumes run: "survey_page fuel env page_index messages0 w = (r, w', T)"
  shows "\<exists>b. (posts T \<noteq> [] \<longrightarrow> (Detect, ReadBase64 (stitched_name page_index), Ok (VStr b)) \<in> set T)
           \<and> (\<forall>j < length (posts T).
                 question_request messages0 [ImageUrl (''data:image/jpeg;base64,'' @ b)] j (posts T ! j))"
proof -
  have q1: "yields (\<lambda>ev. post_payload ev = None) (\<lambda>x. True)
              (at Capture (take_screenshots_scroll fuel env ''screenshots/screenshot''))"
    by (rule yields_at, rule yields_any, rule yields_take_screenshots_scroll) simp
  have q2: "yields (\<lambda>ev. post_payload ev = None) (\<lambda>x. True)
              (at Stitch (stitch_images_vertically env shots out))" for shots out
    by (rule yields_at, rule yields_stitch_images_vertically) simp_all
  have q3: "yields (\<lambda>ev. post_payload ev = None) (\<lambda>x. True) (at Detect (find_all_questions env))"
    by (rule yields_at, rule yields_find_all_questions) simp
  have q5: "yields (\<lambda>ev. post_payload ev = None) (\<lambda>x. True) (at Detect (sorted_by_position env qs))" for qs
    by (rule yields_at, rule yields_sorted_by_position) simp
  have q7: "yields (\<lambda>ev. post_payload ev = None) (\<lambda>x. True)
              (bindP (at Dump (call (JsonDump f msgs) unit_val (json_dump env f msgs))) (\<lambda>_. ret y))" for f msgs y
    by (intro yields_bind_any yields_at yields_call yields_ret) simp_all
  have trivial: ?thesis if "posts T = []"
    using that by simp
  from run[unfolded survey_page_def Let_def stitched_name_def[symmetric]] q1 show ?thesis
  proof (cases rule: bindP_quiet)
    case (continue shots w1 t1 ta)
    from continue(2) q2 show ?thesis
    proof (cases rule: bindP_quiet)
      case c2: (continue u w2 t2 tb)
      from c2(2) q3 show ?thesis
      proof (cases rule: bindP_quiet)
        case c3: (continue all_questions w3 t3 tc)
        from c3(2) show ?thesis
        proof (cases rule: bindP_cases)
          case c4: (continue b w4 t4 td)
          from c4(1) have t4: "t4 = [(Detect, ReadBase64 (stitched_name page_index), Ok (VStr b))]"
            by (auto simp: encode_image_def elim!: at_cases call_cases)
          then have p4: "posts t4 = []" by (simp add: posts_other)
          from c4(2) q5 show ?thesis
          proof (cases rule: bindP_quiet)
            case c5: (continue sorted_elements w5 t5 te)
            have pe: "\<forall>j < length (posts te).
                question_request messages0 [ImageUrl (''data:image/jpeg;base64,'' @ b)] j (posts te ! j)"
              using c5(2)
            proof (cases rule: bindP_cases)
              case c6: (continue msgs w6 t6 tf)
              have "posts tf = []"
                by (rule posts_none) (rule yieldsD_events[OF q7 c6(2)])
              with page_questions_posts[OF c6(1)] c6(3) show ?thesis by simp
            next
              case (raised e)
              with page_questions_posts[OF raised(1)] show ?thesis by simp
            next
              case starved
              with page_questions_posts[OF starved(1)] show ?thesis by simp
            qed
            have PT: "posts T = posts te"
              using continue(4) c2(4) c3(4) c4(3) p4 c5(4) by simp
            have mem: "(Detect, ReadBase64 (stitched_name page_index), Ok (VStr b)) \<in> set T"
              using continue(3) c2(3) c3(3) c4(3) t4 by simp
            from pe PT mem show ?thesis by (intro exI[of _ b]) simp
          next
            case stopped
            with continue(4) c2(4) c3(4) c4(3) p4 show ?thesis by (intro trivial) simp
          qed
        next
          case (raised e)
          then have "posts tc = []"
            by (auto simp: encode_image_def posts_other elim!: at_cases call_cases)
          with continue(4) c2(4) c3(4) show ?thesis by (intro trivial) simp
        next
          case starved
          then have "posts tc = []"
            by (auto simp: encode_image_def posts_other elim!: at_cases call_cases)
          with continue(4) c2(4) c3(4) show ?thesis by (intro trivial) simp
        qed
      next
        case stopped
        with continue(4) c2(4) show ?thesis by (intro trivial) simp
      qed
    next
      case stopped
      with continue(4) show ?thesis by (intro trivial) simp
    qed
  next
    case stopped
    then show ?thesis by (rule trivial)
  qed
qed

lemma question_request_image:
  assumes "question_request messages0 [ImageUrl u] j req"
  shows "(has_image_part (last req) \<longleftrightarrow> j = 0)
         \<and> (\<forall>msg \<in> set (drop (length messages0) req). j > 0 \<longrightarrow> \<not> has_image_part msg)"
proof -
  from assms obtain sums msg html where
    req: "req = messages0 @ sums @ [msg]"
    and msg: "msg = Message ''user'' (Parts ((if j = 0 then [ImageUrl u] else []) @ [TextPart (question_text html)]))"
    and sums: "\<forall>s \<in> set sums. is_summary s"
    unfolding question_request_def question_user_message_def by blast
  have s: "\<not> has_image_part s" if "s \<in> set sums" for s
    using sums that by (auto simp: is_summary_def has_image_part_def split: body.splits)
  have m: "has_image_part msg \<longleftrightarrow> j = 0"
    by (simp add: msg has_image_part_def)
  show ?thesis using s m by (auto simp: req)
qed

text \<open>
  C9 (amended). On every page, the requests to \<open>answer_survey_choice\<close> and
  \<open>answer_survey_other\<close> are, in order: the thread with which the page started, then
  one summary for every question answered before on this page, then the user message
  of the question. That message holds the content buffer, which is the data URL of the
  stitched screenshot of the page (as \<open>encode_image\<close> returned it) in the first request
  and empty afterwards: so the user message of the question has an image part in the
  first request only, and in a later request nothing that this page added to the thread
  has an image part. The thread with which the page started is sent along as it is,
  with the screenshots of earlier pages that had no question.
\<close>

theorem only_first_request_has_screenshot:
  assumes "survey_page fuel env page_index messages0 w = (r, w', T)"
  shows "\<exists>b. (posts T \<noteq> [] \<longrightarrow> (Detect, ReadBase64 (stitched_name page_index), Ok (VStr b)) \<in> set T)
     \<and> (\<forall>j < length (posts T).
          question_request messages0 [ImageUrl (''data:image/jpeg;base64,'' @ b)] j (posts T ! j)
          \<and> (has_image_part (last (posts T ! j)) \<longleftrightarrow> j = 0)
          \<and> (\<forall>msg \<in> set (drop (length messages0) (posts T ! j)). j > 0 \<longrightarrow> \<not> has_image_part msg))"
proof -
  from survey_page_requests[OF assms] obtain b where
    b: "posts T \<noteq> [] \<longrightarrow> (Detect, ReadBase64 (stitched_name page_index), Ok (VStr b)) \<in> set T"
    and reqs: "\<forall>j < length (posts T).
                 question_request messages0 [ImageUrl (''data:image/jpeg;base64,'' @ b)] j (posts T ! j)"
    by blast
  have main: "question_request messages0 [ImageUrl (''data:image/jpeg;base64,'' @ b)] j (posts T ! j)
          \<and> (has_image_part (last (posts T ! j)) \<longleftrightarrow> j = 0)
          \<and> (\<forall>msg \<in> set (drop (length messages0) (posts T ! j)). j > 0 \<longrightarrow> \<not> has_image_part msg)"
    if "j < length (posts T)" for j
  proof -
    from reqs that
    have q: "question_request messages0 [ImageUrl (''data:image/jpeg;base64,'' @ b)] j (posts T ! j)"
      by blast
    from question_request_image[OF q] q show ?thesis by blast
  qed
  from b main show ?thesis by blast
qed

theorem only_first_request_has_screenshot_witness:
  "length (posts (snd (snd (survey_page 3 (demo_env ''2'') 0 [system_message demo_profile] demo_start)))) = 2
   \<and> has_image_part (last (posts (snd (snd (survey_page 3 (demo_env ''2'') 0 [system_message demo_profile] demo_start))) ! 0))
   \<and> \<not> has_image_part (last (posts (snd (snd (survey_page 3 (demo_env ''2'') 0 [system_message demo_profile] demo_start))) ! 1))"
proof -
  obtain r w' T where run:
    "survey_page 3 (demo_env ''2'') 0 [system_message demo_profile] demo_start = (r, w', T)"
    by (cases "survey_page 3 (demo_env ''2'') 0 [system_message demo_profile] demo_start")
  have "length (posts (snd (snd (survey_page 3 (demo_env ''2'') 0 [system_message demo_profile] demo_start)))) = 2"
    by code_simp
  with run have len: "length (posts T) = 2" by simp
  from only_first_request_has_screenshot[OF run] obtain b where
    all: "\<forall>j < length (posts T).
          question_request [system_message demo_profile] [ImageUrl (''data:image/jpeg;base64,'' @ b)] j (posts T ! j)
          \<and> (has_image_part (last (posts T ! j)) \<longleftrightarrow> j = 0)
          \<and> (\<forall>msg \<in> set (drop (length [system_message demo_profile]) (posts T ! j)).
                j > 0 \<longrightarrow> \<not> has_image_part msg)"
    by blast
  from all[rule_format, of 0] len have "has_image_part (last (posts T ! 0))" by simp
  moreover from all[rule_format, of 1] len have "\<not> has_image_part (last (posts T ! 1))" by simp
  ultimately have "has_image_part (last (posts T ! 0))" "\<not> has_image_part (last (posts T ! 1))"
    by blast+
  with run len show ?thesis by simp
qed

text \<open>
  C9 as stated fails: after a page without questions, whose screenshot stays in the
  thread, the request for the second question of the next page is not free of image
  parts.
\<close>

theorem later_request_holds_earlier_screenshot:
  "(1, Ask 1,
     PostChatCompletions
       [system_message demo_profile,
        Message ''user'' (Parts [ImageUrl ''data:image/jpeg;base64,aGk='']),
        Message ''assistant'' (Plain ''ok''),
        Message ''user'' (Parts [TextPart (question_text ''<p>q</p>'')])],
     Ok (VStr ''2''))
     \<in> set (snd (snd (fill_survey 2 3 (intro_env ''2'') demo_profile demo_start)))
   \<and> has_image_part (Message ''user'' (Parts [ImageUrl ''data:image/jpeg;base64,aGk='']))"
  by code_simp

section \<open>Injection of the answer\<close>









end
